theory Spec2Isabelle
  imports Main "HOL-Library.Multiset" "HOL-Library.Char_ord" "HOL-Library.List_Lexorder"
begin

section \<open>Values of the configuration records\<close>

text \<open>
  The records handed to \<open>compare_rds_fields\<close> are Python dictionaries from field names to
  JSON-like values: \<open>None\<close>, booleans, integers, strings, lists and dictionaries with string
  keys. A dictionary is an association list in insertion order; Python dictionaries have
  no duplicate keys, which \<open>wf_val\<close> states. Integers are unbounded, as in Python. A
  character is one code point below 256. Floating point numbers are outside this model.
\<close>

datatype pyval =
    PNone
  | PBool bool
  | PInt int
  | PStr string
  | PList "pyval list"
  | PDict "(string \<times> pyval) list"

datatype py_error = TypeError | AttributeError

fun wf_val :: "pyval \<Rightarrow> bool" where
  "wf_val (PList xs) = list_all wf_val xs"
| "wf_val (PDict kvs) = (distinct (map fst kvs) \<and> list_all (\<lambda>kv. wf_val (snd kv)) kvs)"
| "wf_val _ = True"

subsection \<open>Python's \<open>==\<close> and \<open><\<close>\<close>

text \<open>
  \<open>py_eq\<close> is \<open>==\<close>: \<open>bool\<close> is a subclass of \<open>int\<close>, so \<open>True == 1\<close>; lists are equal
  elementwise; two dictionaries are equal when they have the same number of items and
  every item of the first is found, with an equal value, in the second. \<open>py_lt\<close> is \<open><\<close>:
  numbers and strings are ordered, a list comparison looks for the first index where the
  elements are not \<open>==\<close> and compares those (or the lengths, when there is none), and every
  other pair raises \<open>TypeError\<close>.
\<close>

definition int_of_bool :: "bool \<Rightarrow> int" where
  "int_of_bool b = (if b then 1 else 0)"

fun py_eq :: "pyval \<Rightarrow> pyval \<Rightarrow> bool"
  and py_eq_list :: "pyval list \<Rightarrow> pyval list \<Rightarrow> bool"
  and py_dict_sub :: "(string \<times> pyval) list \<Rightarrow> (string \<times> pyval) list \<Rightarrow> bool"
where
  "py_eq PNone PNone = True"
| "py_eq (PBool a) (PBool b) = (a = b)"
| "py_eq (PBool a) (PInt j) = (int_of_bool a = j)"
| "py_eq (PInt i) (PBool b) = (i = int_of_bool b)"
| "py_eq (PInt i) (PInt j) = (i = j)"
| "py_eq (PStr s) (PStr t) = (s = t)"
| "py_eq (PList xs) (PList ys) = py_eq_list xs ys"
| "py_eq (PDict a) (PDict b) = (length a = length b \<and> py_dict_sub a b)"
| "py_eq _ _ = False"
| "py_eq_list [] [] = True"
| "py_eq_list (x # xs) (y # ys) = (py_eq x y \<and> py_eq_list xs ys)"
| "py_eq_list _ _ = False"
| "py_dict_sub [] b = True"
| "py_dict_sub ((k, v) # a) b =
     ((case map_of b k of None \<Rightarrow> False | Some w \<Rightarrow> py_eq v w) \<and> py_dict_sub a b)"

fun py_lt :: "pyval \<Rightarrow> pyval \<Rightarrow> py_error + bool"
  and py_lt_list :: "pyval list \<Rightarrow> pyval list \<Rightarrow> py_error + bool"
where
  "py_lt (PBool a) (PBool b) = Inr (int_of_bool a < int_of_bool b)"
| "py_lt (PBool a) (PInt j) = Inr (int_of_bool a < j)"
| "py_lt (PInt i) (PBool b) = Inr (i < int_of_bool b)"
| "py_lt (PInt i) (PInt j) = Inr (i < j)"
| "py_lt (PStr s) (PStr t) = Inr (s < t)"
| "py_lt (PList xs) (PList ys) = py_lt_list xs ys"
| "py_lt _ _ = Inl TypeError"
| "py_lt_list [] [] = Inr False"
| "py_lt_list [] (y # ys) = Inr True"
| "py_lt_list (x # xs) [] = Inr False"
| "py_lt_list (x # xs) (y # ys) = (if py_eq x y then py_lt_list xs ys else py_lt x y)"

subsection \<open>\<open>sorted\<close>\<close>

text \<open>
  \<open>sorted\<close> is stable and compares with \<open><\<close> only; a \<open>TypeError\<close> of a comparison escapes
  it. It is modelled by the stable insertion sort: each element goes in front of the first
  element of the sorted rest that is not smaller than it.
\<close>

fun py_insort :: "pyval \<Rightarrow> pyval list \<Rightarrow> py_error + pyval list" where
  "py_insort x [] = Inr [x]"
| "py_insort x (y # ys) =
     (case py_lt y x of
        Inl e \<Rightarrow> Inl e
      | Inr True \<Rightarrow> (case py_insort x ys of Inl e \<Rightarrow> Inl e | Inr zs \<Rightarrow> Inr (y # zs))
      | Inr False \<Rightarrow> Inr (x # y # ys))"

fun py_sorted :: "pyval list \<Rightarrow> py_error + pyval list" where
  "py_sorted [] = Inr []"
| "py_sorted (x # xs) = (case py_sorted xs of Inl e \<Rightarrow> Inl e | Inr ys \<Rightarrow> py_insort x ys)"


subsection \<open>Truthiness, \<open>str\<close> and \<open>json.dumps\<close>\<close>

text \<open>
  \<open>py_str\<close> is \<open>str(v)\<close>: a string is itself, every other value is its \<open>repr\<close>.
  \<open>json_dumps\<close> is \<open>json.dumps(v, sort_keys=True)\<close> with the default separators and
  \<open>ensure_ascii\<close>.
\<close>

fun py_truthy :: "pyval \<Rightarrow> bool" where
  "py_truthy PNone = False"
| "py_truthy (PBool b) = b"
| "py_truthy (PInt i) = (i \<noteq> 0)"
| "py_truthy (PStr s) = (s \<noteq> [])"
| "py_truthy (PList xs) = (xs \<noteq> [])"
| "py_truthy (PDict kvs) = (kvs \<noteq> [])"

definition hex_digit :: "nat \<Rightarrow> char" where
  "hex_digit n = ''0123456789abcdef'' ! (n mod 16)"

fun show_nat :: "nat \<Rightarrow> string" where
  "show_nat n = (if n < 10 then [hex_digit n] else show_nat (n div 10) @ [hex_digit (n mod 10)])"

definition show_int :: "int \<Rightarrow> string" where
  "show_int i = (if i < 0 then CHR ''-'' # show_nat (nat (- i)) else show_nat (nat i))"

definition hex2 :: "char \<Rightarrow> string" where
  "hex2 c = [hex_digit (of_char c div 16), hex_digit (of_char c)]"

fun join :: "string \<Rightarrow> string list \<Rightarrow> string" where
  "join sep [] = []"
| "join sep [s] = s"
| "join sep (s # t # ss) = s @ sep @ join sep (t # ss)"

definition repr_char :: "char \<Rightarrow> char \<Rightarrow> string" where
  "repr_char q c =
     (if c = q \<or> c = CHR 0x5C then [CHR 0x5C, c]
      else if c = CHR 0x09 then [CHR 0x5C, CHR ''t'']
      else if c = CHR 0x0A then [CHR 0x5C, CHR ''n'']
      else if c = CHR 0x0D then [CHR 0x5C, CHR ''r'']
      else if (of_char c :: nat) < 0x20 \<or> c = CHR 0x7F then [CHR 0x5C, CHR ''x''] @ hex2 c
      else if (of_char c :: nat) < 0x7F then [c]
      else if (of_char c :: nat) \<le> 0xA0 \<or> c = CHR 0xAD then [CHR 0x5C, CHR ''x''] @ hex2 c
      else [c])"

definition repr_str :: "string \<Rightarrow> string" where
  "repr_str s =
     (let q = (if CHR 0x27 \<in> set s \<and> CHR 0x22 \<notin> set s then CHR 0x22 else CHR 0x27)
      in q # concat (map (repr_char q) s) @ [q])"

fun py_repr :: "pyval \<Rightarrow> string" where
  "py_repr PNone = ''None''"
| "py_repr (PBool b) = (if b then ''True'' else ''False'')"
| "py_repr (PInt i) = show_int i"
| "py_repr (PStr s) = repr_str s"
| "py_repr (PList xs) = ''['' @ join '', '' (map py_repr xs) @ '']''"
| "py_repr (PDict kvs) =
     ''{'' @ join '', '' (map (\<lambda>kv. repr_str (fst kv) @ '': '' @ py_repr (snd kv)) kvs) @ ''}''"

fun py_str :: "pyval \<Rightarrow> string" where
  "py_str (PStr s) = s"
| "py_str v = py_repr v"

definition json_escape_char :: "char \<Rightarrow> string" where
  "json_escape_char c =
     (if c = CHR 0x22 \<or> c = CHR 0x5C then [CHR 0x5C, c]
      else if c = CHR 0x08 then [CHR 0x5C, CHR ''b'']
      else if c = CHR 0x0C then [CHR 0x5C, CHR ''f'']
      else if c = CHR 0x0A then [CHR 0x5C, CHR ''n'']
      else if c = CHR 0x0D then [CHR 0x5C, CHR ''r'']
      else if c = CHR 0x09 then [CHR 0x5C, CHR ''t'']
      else if 0x20 \<le> (of_char c :: nat) \<and> (of_char c :: nat) \<le> 0x7E then [c]
      else [CHR 0x5C, CHR ''u'', CHR ''0'', CHR ''0''] @ hex2 c)"

definition json_str :: "string \<Rightarrow> string" where
  "json_str s = CHR 0x22 # concat (map json_escape_char s) @ [CHR 0x22]"

fun json_dumps :: "pyval \<Rightarrow> string" where
  "json_dumps PNone = ''null''"
| "json_dumps (PBool b) = (if b then ''true'' else ''false'')"
| "json_dumps (PInt i) = show_int i"
| "json_dumps (PStr s) = json_str s"
| "json_dumps (PList xs) = ''['' @ join '', '' (map json_dumps xs) @ '']''"
| "json_dumps (PDict kvs) =
     ''{'' @ join '', ''
        (map (\<lambda>ks. json_str (fst ks) @ '': '' @ snd ks)
           (sort_key fst (map (\<lambda>kv. (fst kv, json_dumps (snd kv))) kvs))) @ ''}''"

section \<open>The comparison of two records\<close>

text \<open>
  \<open>compare_values\<close> is the body of the loop of \<open>compare_rds_fields\<close> for one field, after
  the two lookups; \<open>compare_loop\<close> is the loop, carrying \<open>found_differences\<close> and the
  \<open>differences\<close> dictionary; an exception of the body ends the function with \<open>Inl\<close>.
  \<open>dict_get\<close> is \<open>d.get(k)\<close>, \<open>dict_set\<close> is \<open>d[k] = v\<close>: an existing key keeps its place.
\<close>

record field_diff =
  db1 :: pyval
  db2 :: pyval
  diff :: bool

record report =
  status :: string
  message :: string
  differences :: "(string \<times> field_diff) list"

definition dict_get :: "(string \<times> pyval) list \<Rightarrow> string \<Rightarrow> pyval" where
  "dict_get d k = (case map_of d k of None \<Rightarrow> PNone | Some v \<Rightarrow> v)"

fun dict_set :: "(string \<times> 'v) list \<Rightarrow> string \<Rightarrow> 'v \<Rightarrow> (string \<times> 'v) list" where
  "dict_set [] k v = [(k, v)]"
| "dict_set ((k', v') # d) k v = (if k' = k then (k, v) # d else (k', v') # dict_set d k v)"

fun sg_ids :: "pyval list \<Rightarrow> py_error + pyval list" where
  "sg_ids [] = Inr []"
| "sg_ids (PDict sg # rest) =
     (case sg_ids rest of
        Inl e \<Rightarrow> Inl e
      | Inr ids \<Rightarrow>
          if py_truthy (dict_get sg ''VpcSecurityGroupId'')
          then Inr (dict_get sg ''VpcSecurityGroupId'' # ids) else Inr ids)"
| "sg_ids (_ # rest) = Inl AttributeError"

definition sorted_sg_ids :: "pyval list \<Rightarrow> py_error + pyval list" where
  "sorted_sg_ids l = (case sg_ids l of Inl e \<Rightarrow> Inl e | Inr ids \<Rightarrow> py_sorted ids)"

fun compare_values :: "string \<Rightarrow> pyval \<Rightarrow> pyval \<Rightarrow> py_error + field_diff" where
  "compare_values field (PList l1) (PList l2) =
     (if field = ''VpcSecurityGroups'' then
        (case sorted_sg_ids l1 of
           Inl e \<Rightarrow> Inl e
         | Inr ids1 \<Rightarrow>
            (case sorted_sg_ids l2 of
               Inl e \<Rightarrow> Inl e
             | Inr ids2 \<Rightarrow>
                 Inr \<lparr>db1 = PList ids1, db2 = PList ids2,
                      diff = (\<not> py_eq (PList ids1) (PList ids2))\<rparr>))
      else
        (case py_sorted l1 of
           Inl e \<Rightarrow> Inl e
         | Inr s1 \<Rightarrow>
            (case py_sorted l2 of
               Inl e \<Rightarrow> Inl e
             | Inr s2 \<Rightarrow>
                 Inr \<lparr>db1 = PList l1, db2 = PList l2,
                      diff = (\<not> py_eq (PList s1) (PList s2))\<rparr>)))"
| "compare_values field (PDict m1) (PDict m2) =
     Inr \<lparr>db1 = PDict m1, db2 = PDict m2,
          diff = (json_dumps (PDict m1) \<noteq> json_dumps (PDict m2))\<rparr>"
| "compare_values field value1 value2 =
     Inr \<lparr>db1 = PStr (py_str value1), db2 = PStr (py_str value2),
          diff = (\<not> py_eq value1 value2)\<rparr>"

definition compare_field ::
  "(string \<times> pyval) list \<Rightarrow> (string \<times> pyval) list \<Rightarrow> string \<Rightarrow> py_error + field_diff" where
  "compare_field db1_details db2_details field =
     compare_values field (dict_get db1_details field) (dict_get db2_details field)"

fun compare_loop ::
  "(string \<times> pyval) list \<Rightarrow> (string \<times> pyval) list \<Rightarrow> string list \<Rightarrow>
   bool \<times> (string \<times> field_diff) list \<Rightarrow> py_error + bool \<times> (string \<times> field_diff) list" where
  "compare_loop d1 d2 [] st = Inr st"
| "compare_loop d1 d2 (field # rest) (found, diffs) =
     (case compare_field d1 d2 field of
        Inl e \<Rightarrow> Inl e
      | Inr fd \<Rightarrow> compare_loop d1 d2 rest (found \<or> diff fd, dict_set diffs field fd))"

definition record_falsy :: "(string \<times> pyval) list option \<Rightarrow> bool" where
  "record_falsy d = (case d of None \<Rightarrow> True | Some kvs \<Rightarrow> kvs = [])"

definition error_report :: report where
  "error_report =
     \<lparr>status = ''ERROR'',
      message = ''One or both DB instance details are missing for comparison.'',
      differences = []\<rparr>"

definition compare_rds_fields ::
  "(string \<times> pyval) list option \<Rightarrow> (string \<times> pyval) list option \<Rightarrow> string list \<Rightarrow>
   py_error + report" where
  "compare_rds_fields db1_details db2_details fields_to_compare =
     (case db1_details of
        None \<Rightarrow> Inr error_report
      | Some d1 \<Rightarrow>
         (case db2_details of
            None \<Rightarrow> Inr error_report
          | Some d2 \<Rightarrow>
              if d1 = [] \<or> d2 = [] then Inr error_report
              else
                (case compare_loop d1 d2 fields_to_compare (False, []) of
                   Inl e \<Rightarrow> Inl e
                 | Inr (found_differences, diffs) \<Rightarrow>
                     if found_differences
                     then Inr \<lparr>status = ''DIFFERENCES_FOUND'',
                               message = ''Differences found for one or more specified fields.'',
                               differences = diffs\<rparr>
                     else Inr \<lparr>status = ''SUCCESS'',
                               message = ''No differences found for specified fields.'',
                               differences = diffs\<rparr>)))"

text \<open>The order in which the names of a list occur first.\<close>

fun first_occurrences :: "string list \<Rightarrow> string list" where
  "first_occurrences [] = []"
| "first_occurrences (f # fs) = f # removeAll f (first_occurrences fs)"

text \<open>
  The elements of a list are mutually orderable when \<open><\<close> raises for no two of them, in
  either direction.
\<close>

definition can_lt :: "pyval \<Rightarrow> pyval \<Rightarrow> bool" where
  "can_lt x y = (case py_lt x y of Inl e \<Rightarrow> False | Inr b \<Rightarrow> True)"

fun orderable :: "pyval list \<Rightarrow> bool" where
  "orderable [] = True"
| "orderable (x # xs) = (list_all (\<lambda>y. can_lt x y \<and> can_lt y x) xs \<and> orderable xs)"

text \<open>The kind of a value, as the specification's data model names it.\<close>

datatype kind = KNull | KBool | KNumber | KString | KSequence | KMapping

fun kind_of :: "pyval \<Rightarrow> kind" where
  "kind_of PNone = KNull"
| "kind_of (PBool b) = KBool"
| "kind_of (PInt i) = KNumber"
| "kind_of (PStr s) = KString"
| "kind_of (PList xs) = KSequence"
| "kind_of (PDict kvs) = KMapping"

text \<open>
  The identifiers of a security-group list, in the specification's words: the
  \<open>VpcSecurityGroupId\<close> of each element, without the elements that lack one (or have an empty
  one).
\<close>

definition sg_identifier :: "pyval \<Rightarrow> pyval" where
  "sg_identifier sg = (case sg of PDict m \<Rightarrow> dict_get m ''VpcSecurityGroupId'' | _ \<Rightarrow> PNone)"

definition identifiers :: "pyval list \<Rightarrow> pyval list" where
  "identifiers l = filter py_truthy (map sg_identifier l)"

section \<open>The loop and the report\<close>

text \<open>
  Every entry of the \<open>differences\<close> dictionary is the result of the loop body for its key,
  so assigning a key again stores what is already there.
\<close>

lemma dict_set_same:
  "\<forall>kd \<in> set diffs. fst kd = f \<longrightarrow> snd kd = fd \<Longrightarrow>
   dict_set diffs f fd = (if f \<in> set (map fst diffs) then diffs else diffs @ [(f, fd)])"
  by (induction diffs) (force split: if_splits)+

lemma compare_loop_result:
  "\<forall>kd \<in> set diffs. compare_field d1 d2 (fst kd) = Inr (snd kd) \<Longrightarrow>
   compare_loop d1 d2 fs (found, diffs) = Inr (found', diffs') \<Longrightarrow>
   (\<forall>f \<in> set fs. \<exists>fd. compare_field d1 d2 f = Inr fd) \<and>
   (\<forall>kd \<in> set diffs'. compare_field d1 d2 (fst kd) = Inr (snd kd)) \<and>
   map fst diffs' = map fst diffs @ filter (\<lambda>f. f \<notin> set (map fst diffs)) (first_occurrences fs) \<and>
   (found' \<longleftrightarrow> found \<or> (\<exists>f \<in> set fs. \<exists>fd. compare_field d1 d2 f = Inr fd \<and> diff fd))"
proof (induction fs arbitrary: found diffs)
  case Nil
  then show ?case by simp
next
  case (Cons f fs)
  from Cons.prems(2) obtain fd where fd: "compare_field d1 d2 f = Inr fd"
    and loop: "compare_loop d1 d2 fs (found \<or> diff fd, dict_set diffs f fd) = Inr (found', diffs')"
    by (auto split: sum.splits)
  have same: "\<forall>kd \<in> set diffs. fst kd = f \<longrightarrow> snd kd = fd"
    using Cons.prems(1) fd by auto
  have ds: "dict_set diffs f fd = (if f \<in> set (map fst diffs) then diffs else diffs @ [(f, fd)])"
    by (rule dict_set_same [OF same])
  have inv: "\<forall>kd \<in> set (dict_set diffs f fd). compare_field d1 d2 (fst kd) = Inr (snd kd)"
    using Cons.prems(1) fd by (auto simp: ds)
  note IH = Cons.IH [OF inv loop]
  show ?case
  proof (intro conjI)
    show "\<forall>g \<in> set (f # fs). \<exists>fd. compare_field d1 d2 g = Inr fd"
      using IH fd by simp
    show "\<forall>kd \<in> set diffs'. compare_field d1 d2 (fst kd) = Inr (snd kd)"
      using IH by blast
    show "map fst diffs' = map fst diffs @ filter (\<lambda>f. f \<notin> set (map fst diffs)) (first_occurrences (f # fs))"
    proof (cases "f \<in> set (map fst diffs)")
      case True
      have "filter (\<lambda>g. g \<notin> set (map fst diffs)) (removeAll f (first_occurrences fs))
            = filter (\<lambda>g. g \<notin> set (map fst diffs)) (first_occurrences fs)"
        using True by (auto simp: removeAll_filter_not_eq intro: filter_cong)
      then show ?thesis using IH True by (simp add: ds)
    next
      case False
      have "filter (\<lambda>g. g \<notin> set (map fst (diffs @ [(f, fd)]))) (first_occurrences fs)
            = filter (\<lambda>g. g \<notin> set (map fst diffs)) (removeAll f (first_occurrences fs))"
        by (auto simp: removeAll_filter_not_eq intro: filter_cong)
      then show ?thesis using IH False by (simp add: ds)
    qed
    show "found' \<longleftrightarrow> found \<or> (\<exists>g \<in> set (f # fs). \<exists>fd. compare_field d1 d2 g = Inr fd \<and> diff fd)"
      using IH fd by auto
  qed
qed

lemma compare_loop_total:
  "\<forall>f \<in> set fs. \<exists>fd. compare_field d1 d2 f = Inr fd \<Longrightarrow> \<exists>st'. compare_loop d1 d2 fs st = Inr st'"
proof (induction fs arbitrary: st)
  case Nil then show ?case by simp
next
  case (Cons f fs)
  obtain found diffs where st: "st = (found, diffs)" by (cases st)
  from Cons.prems obtain fd where "compare_field d1 d2 f = Inr fd" by auto
  then show ?case using Cons.IH Cons.prems by (simp add: st)
qed

lemma distinct_first_occurrences: "distinct (first_occurrences fs)"
  by (induction fs) (auto simp: distinct_removeAll)

lemma set_first_occurrences: "set (first_occurrences fs) = set fs"
  by (induction fs) auto

lemma compare_present_unfold:
  assumes "d1 \<noteq> []" "d2 \<noteq> []"
  shows "compare_rds_fields (Some d1) (Some d2) fs =
     (case compare_loop d1 d2 fs (False, []) of
        Inl e \<Rightarrow> Inl e
      | Inr st \<Rightarrow>
          Inr \<lparr>status = (if fst st then ''DIFFERENCES_FOUND'' else ''SUCCESS''),
               message = (if fst st then ''Differences found for one or more specified fields.''
                          else ''No differences found for specified fields.''),
               differences = snd st\<rparr>)"
  unfolding compare_rds_fields_def using assms
  by (simp split: sum.split prod.split)

lemma compare_present:
  assumes "d1 \<noteq> []" "d2 \<noteq> []"
    and "compare_rds_fields (Some d1) (Some d2) fs = Inr r"
  shows "\<exists>found. compare_loop d1 d2 fs (False, []) = Inr (found, differences r) \<and>
           status r = (if found then ''DIFFERENCES_FOUND'' else ''SUCCESS'')"
proof (cases "compare_loop d1 d2 fs (False, [])")
  case (Inl e)
  with assms(3) show ?thesis
    unfolding compare_present_unfold [OF assms(1,2)] by simp
next
  case (Inr st)
  with assms(3) have r: "r = \<lparr>status = (if fst st then ''DIFFERENCES_FOUND'' else ''SUCCESS''),
               message = (if fst st then ''Differences found for one or more specified fields.''
                          else ''No differences found for specified fields.''),
               differences = snd st\<rparr>"
    unfolding compare_present_unfold [OF assms(1,2)] by simp
  have "compare_loop d1 d2 fs (False, []) = Inr (fst st, differences r)"
    unfolding r using Inr by simp
  moreover have "status r = (if fst st then ''DIFFERENCES_FOUND'' else ''SUCCESS'')"
    unfolding r by simp
  ultimately show ?thesis by blast
qed

lemma compare_entries:
  assumes "d1 \<noteq> []" "d2 \<noteq> []"
    and "compare_rds_fields (Some d1) (Some d2) fs = Inr r"
  shows "(\<forall>f \<in> set fs. \<exists>fd. compare_field d1 d2 f = Inr fd) \<and>
         (\<forall>kd \<in> set (differences r). compare_field d1 d2 (fst kd) = Inr (snd kd)) \<and>
         map fst (differences r) = first_occurrences fs \<and>
         (status r = ''DIFFERENCES_FOUND'' \<longleftrightarrow> (\<exists>f \<in> set fs. \<exists>fd. compare_field d1 d2 f = Inr fd \<and> diff fd)) \<and>
         (status r \<noteq> ''DIFFERENCES_FOUND'' \<longrightarrow> status r = ''SUCCESS'')"
proof -
  from compare_present [OF assms] obtain found where
    loop: "compare_loop d1 d2 fs (False, []) = Inr (found, differences r)"
    and st: "status r = (if found then ''DIFFERENCES_FOUND'' else ''SUCCESS'')" by blast
  have "\<forall>kd \<in> set ([] :: (string \<times> field_diff) list). compare_field d1 d2 (fst kd) = Inr (snd kd)"
    by simp
  from compare_loop_result [OF this loop] show ?thesis using st by simp
qed

lemma compare_entry:
  assumes "d1 \<noteq> []" "d2 \<noteq> []"
    and "compare_rds_fields (Some d1) (Some d2) fs = Inr r" and "f \<in> set fs"
  shows "\<exists>fd. compare_field d1 d2 f = Inr fd \<and> map_of (differences r) f = Some fd"
proof -
  note E = compare_entries [OF assms(1-3)]
  from E assms(4) have "f \<in> set (map fst (differences r))"
    by (simp add: set_first_occurrences)
  then obtain fd where m: "map_of (differences r) f = Some fd"
    by (metis map_of_eq_None_iff not_Some_eq set_map)
  then have "(f, fd) \<in> set (differences r)" by (rule map_of_SomeD)
  with E have "compare_field d1 d2 f = Inr fd" by fastforce
  with m show ?thesis by blast
qed

lemma compare_returns:
  assumes "d1 \<noteq> []" "d2 \<noteq> []"
    and "\<forall>f \<in> set fs. \<exists>fd. compare_field d1 d2 f = Inr fd"
  shows "\<exists>r. compare_rds_fields (Some d1) (Some d2) fs = Inr r \<and>
             map fst (differences r) = first_occurrences fs \<and>
             distinct (map fst (differences r)) \<and>
             (\<forall>f \<in> set fs. \<exists>fd. compare_field d1 d2 f = Inr fd \<and>
                  map_of (differences r) f = Some fd)"
proof -
  from compare_loop_total [OF assms(3)] obtain found diffs where
    "compare_loop d1 d2 fs (False, []) = Inr (found, diffs)" by (metis surj_pair)
  then have "\<exists>r. compare_rds_fields (Some d1) (Some d2) fs = Inr r"
    using assms(1,2) by (simp add: compare_rds_fields_def)
  then obtain r where r: "compare_rds_fields (Some d1) (Some d2) fs = Inr r" ..
  note E = compare_entries [OF assms(1,2) r]
  have "\<forall>f \<in> set fs. \<exists>fd. compare_field d1 d2 f = Inr fd \<and> map_of (differences r) f = Some fd"
    using compare_entry [OF assms(1,2) r] by blast
  with r E show ?thesis by (simp add: distinct_first_occurrences)
qed

section \<open>Missing and empty records\<close>

text \<open>
  C4, as amended: for every field list, when either record is \<open>None\<close> the function returns
  at once the report with status \<open>ERROR\<close>, no differences and the fixed message
  ``One or both DB instance details are missing for comparison.'', whichever side is missing.
\<close>

theorem absent_record_error:
  "db1_details = None \<or> db2_details = None \<Longrightarrow>
   compare_rds_fields db1_details db2_details fs =
     Inr \<lparr>status = ''ERROR'',
          message = ''One or both DB instance details are missing for comparison.'',
          differences = []\<rparr>"
  by (auto simp: compare_rds_fields_def error_report_def split: option.splits)

theorem absent_record_error_witness:
  "((None :: (string \<times> pyval) list option) = None \<or> Some [(''MultiAZ'', PBool True)] = None) \<and>
   compare_rds_fields None (Some [(''MultiAZ'', PBool True)]) [''MultiAZ'', ''Engine''] =
     Inr \<lparr>status = ''ERROR'',
          message = ''One or both DB instance details are missing for comparison.'',
          differences = []\<rparr>"
  using absent_record_error [of None "Some [(''MultiAZ'', PBool True)]" "[''MultiAZ'', ''Engine'']"]
  by simp

text \<open>
  C4, as stated, asks for a message that tells which side is missing. The report for a
  missing first record and the report for a missing second record are the same, message
  included.
\<close>

theorem absent_side_not_in_message:
  "compare_rds_fields None (Some [(''MultiAZ'', PBool True)]) [''MultiAZ''] =
     Inr \<lparr>status = ''ERROR'',
          message = ''One or both DB instance details are missing for comparison.'',
          differences = []\<rparr> \<and>
   compare_rds_fields (Some [(''MultiAZ'', PBool True)]) None [''MultiAZ''] =
     Inr \<lparr>status = ''ERROR'',
          message = ''One or both DB instance details are missing for comparison.'',
          differences = []\<rparr>"
  by (simp add: compare_rds_fields_def error_report_def)

text \<open>
  C9: a record that is present but empty is falsy, so it is treated exactly like a missing
  record: for every field list the result is the report with status \<open>ERROR\<close> and no
  differences, the same report as for a missing record, and no field is compared (the result
  does not depend on the fields of the other record).
\<close>

theorem empty_record_error:
  "db1_details = Some [] \<or> db2_details = Some [] \<Longrightarrow>
   compare_rds_fields db1_details db2_details fs =
     Inr \<lparr>status = ''ERROR'',
          message = ''One or both DB instance details are missing for comparison.'',
          differences = []\<rparr> \<and>
   compare_rds_fields db1_details db2_details fs = compare_rds_fields None db2_details fs \<and>
   compare_rds_fields db1_details db2_details fs = compare_rds_fields db1_details None fs"
  by (auto simp: compare_rds_fields_def error_report_def split: option.splits)

theorem empty_record_error_witness:
  "(Some [] = Some ([] :: (string \<times> pyval) list) \<or>
      Some [(''Tags'', PList [PDict [], PDict []])] = Some []) \<and>
   compare_rds_fields (Some []) (Some [(''Tags'', PList [PDict [], PDict []])]) [''Tags''] =
     Inr \<lparr>status = ''ERROR'',
          message = ''One or both DB instance details are missing for comparison.'',
          differences = []\<rparr> \<and>
   compare_rds_fields None (Some [(''Tags'', PList [PDict [], PDict []])]) [''Tags''] =
     Inr \<lparr>status = ''ERROR'',
          message = ''One or both DB instance details are missing for comparison.'',
          differences = []\<rparr>"
proof -
  have h: "Some [] = Some ([] :: (string \<times> pyval) list) \<or>
           Some [(''Tags'', PList [PDict [], PDict []])] = Some []"
    by simp
  from empty_record_error [OF h, of "[''Tags'']"] h show ?thesis
    by metis
qed

section \<open>The status of a report\<close>

text \<open>
  C5: for every report the function returns, the status is \<open>DIFFERENCES_FOUND\<close> exactly when
  both records were usable and some entry of the differences has \<open>diff = True\<close>; it is
  \<open>ERROR\<close> exactly when a record was missing or empty, and then the differences are empty;
  otherwise it is \<open>SUCCESS\<close> (the specification's \<open>ok\<close>) and every entry has \<open>diff = False\<close>.
\<close>

theorem report_status_invariant:
  assumes "compare_rds_fields db1_details db2_details fs = Inr r"
  shows "(status r = ''DIFFERENCES_FOUND'' \<longleftrightarrow>
            \<not> (record_falsy db1_details \<or> record_falsy db2_details) \<and>
            (\<exists>kd \<in> set (differences r). diff (snd kd))) \<and>
         (status r = ''ERROR'' \<longleftrightarrow> record_falsy db1_details \<or> record_falsy db2_details) \<and>
         (status r = ''ERROR'' \<longrightarrow> differences r = []) \<and>
         (status r \<noteq> ''DIFFERENCES_FOUND'' \<and> status r \<noteq> ''ERROR'' \<longrightarrow>
            status r = ''SUCCESS'' \<and> (\<forall>kd \<in> set (differences r). \<not> diff (snd kd)))"
proof (cases "record_falsy db1_details \<or> record_falsy db2_details")
  case True
  then have "compare_rds_fields db1_details db2_details fs = Inr error_report"
    by (auto simp: compare_rds_fields_def record_falsy_def split: option.splits)
  with assms have "r = error_report" by simp
  then show ?thesis using True by (simp add: error_report_def)
next
  case False
  then obtain d1 d2 where d: "db1_details = Some d1" "db2_details = Some d2" "d1 \<noteq> []" "d2 \<noteq> []"
    by (auto simp: record_falsy_def split: option.splits)
  note E = compare_entries [OF d(3,4) assms [unfolded d(1,2)]]
  have keys: "fst ` set (differences r) = set fs"
    using E by (metis set_first_occurrences set_map)
  have ex: "(\<exists>kd \<in> set (differences r). diff (snd kd)) \<longleftrightarrow>
            (\<exists>f \<in> set fs. \<exists>fd. compare_field d1 d2 f = Inr fd \<and> diff fd)"
  proof
    assume "\<exists>kd \<in> set (differences r). diff (snd kd)"
    then obtain kd where kd: "kd \<in> set (differences r)" "diff (snd kd)" by blast
    then have "fst kd \<in> set fs" using keys by blast
    moreover have "compare_field d1 d2 (fst kd) = Inr (snd kd)" using E kd by blast
    ultimately show "\<exists>f \<in> set fs. \<exists>fd. compare_field d1 d2 f = Inr fd \<and> diff fd"
      using kd by blast
  next
    assume "\<exists>f \<in> set fs. \<exists>fd. compare_field d1 d2 f = Inr fd \<and> diff fd"
    then obtain f fd where f: "f \<in> set fs" "compare_field d1 d2 f = Inr fd" "diff fd" by blast
    from f(1) keys have "f \<in> fst ` set (differences r)" by simp
    then obtain kd where kd: "kd \<in> set (differences r)" "fst kd = f" by auto
    then have "compare_field d1 d2 f = Inr (snd kd)" using E by blast
    with f have "diff (snd kd)" by simp
    with kd show "\<exists>kd \<in> set (differences r). diff (snd kd)" by blast
  qed
  have ne: "status r \<noteq> ''ERROR''" using E by (auto split: if_splits)
  show ?thesis using E ex ne False by auto
qed

theorem report_status_invariant_witness:
  "compare_rds_fields (Some [(''MultiAZ'', PBool True)]) (Some [(''MultiAZ'', PBool False)]) [''MultiAZ''] =
     Inr \<lparr>status = ''DIFFERENCES_FOUND'',
          message = ''Differences found for one or more specified fields.'',
          differences = [(''MultiAZ'', \<lparr>db1 = PStr ''True'', db2 = PStr ''False'', diff = True\<rparr>)]\<rparr> \<and>
   \<not> (record_falsy (Some [(''MultiAZ'', PBool True)]) \<or> record_falsy (Some [(''MultiAZ'', PBool False)]))"
proof -
  have h: "compare_rds_fields (Some [(''MultiAZ'', PBool True)]) (Some [(''MultiAZ'', PBool False)]) [''MultiAZ''] =
     Inr \<lparr>status = ''DIFFERENCES_FOUND'',
          message = ''Differences found for one or more specified fields.'',
          differences = [(''MultiAZ'', \<lparr>db1 = PStr ''True'', db2 = PStr ''False'', diff = True\<rparr>)]\<rparr>"
    by (simp add: compare_rds_fields_def compare_field_def dict_get_def)
  show ?thesis using h report_status_invariant [OF h] by simp
qed

section \<open>The keys of the differences\<close>

text \<open>
  C10: when both records are present and not empty and no field comparison raises, the
  function returns a report whose differences have exactly one entry per distinct requested
  name, in the order of the names' first occurrences, and the entry of a name, also of one
  requested several times, is the result of comparing that field.
\<close>

theorem differences_one_entry_per_field:
  assumes "d1 \<noteq> []" "d2 \<noteq> []"
    and "\<forall>f \<in> set fs. \<exists>fd. compare_field d1 d2 f = Inr fd"
  shows "\<exists>r. compare_rds_fields (Some d1) (Some d2) fs = Inr r \<and>
             map fst (differences r) = first_occurrences fs \<and>
             distinct (map fst (differences r)) \<and>
             (\<forall>f \<in> set fs. \<exists>fd. compare_field d1 d2 f = Inr fd \<and>
                  map_of (differences r) f = Some fd)"
  using assms by (rule compare_returns)

theorem differences_one_entry_per_field_witness:
  "\<exists>r. compare_rds_fields (Some [(''Engine'', PStr ''mysql'')]) (Some [(''Engine'', PStr ''postgres'')])
          [''Engine'', ''MultiAZ'', ''Engine''] = Inr r \<and>
       map fst (differences r) = [''Engine'', ''MultiAZ''] \<and>
       map_of (differences r) ''Engine'' =
         Some \<lparr>db1 = PStr ''mysql'', db2 = PStr ''postgres'', diff = True\<rparr>"
proof -
  have h: "\<forall>f \<in> set [''Engine'', ''MultiAZ'', ''Engine''].
      \<exists>fd. compare_field [(''Engine'', PStr ''mysql'')] [(''Engine'', PStr ''postgres'')] f = Inr fd"
    by (simp add: compare_field_def dict_get_def)
  have ne: "[(''Engine'', PStr ''mysql'')] \<noteq> []" "[(''Engine'', PStr ''postgres'')] \<noteq> []"
    by simp_all
  from differences_one_entry_per_field [OF ne h] show ?thesis
    by (auto simp: compare_field_def dict_get_def)
qed

section \<open>One field of the report\<close>

text \<open>
  The entry of a requested field in the returned report is the result of the loop body for
  that field; \<open>sorted\<close> succeeds on mutually orderable elements and returns a permutation.
\<close>

lemma report_entry:
  assumes "d1 \<noteq> []" "d2 \<noteq> []"
    and "compare_rds_fields (Some d1) (Some d2) fs = Inr r" and "f \<in> set fs"
    and "compare_field d1 d2 f = Inr fd"
  shows "map_of (differences r) f = Some fd"
  using compare_entry [OF assms(1-4)] assms(5) by auto

lemma compare_single:
  assumes "d1 \<noteq> []" "d2 \<noteq> []" "compare_field d1 d2 f = Inr fd"
  shows "\<exists>r. compare_rds_fields (Some d1) (Some d2) [f] = Inr r \<and> map_of (differences r) f = Some fd"
proof -
  have "\<forall>g \<in> set [f]. \<exists>fd. compare_field d1 d2 g = Inr fd" using assms(3) by simp
  from compare_returns [OF assms(1,2) this] assms(3) show ?thesis by auto
qed

lemma compare_values_None_left:
  "compare_values f PNone v = Inr \<lparr>db1 = PStr ''None'', db2 = PStr (py_str v), diff = (v \<noteq> PNone)\<rparr>"
  by (cases v) simp_all

lemma compare_values_None_right:
  "compare_values f v PNone = Inr \<lparr>db1 = PStr (py_str v), db2 = PStr ''None'', diff = (v \<noteq> PNone)\<rparr>"
  by (cases v) simp_all

lemma compare_values_other:
  assumes "\<not> (kind_of v1 = KSequence \<and> kind_of v2 = KSequence)"
    and "\<not> (kind_of v1 = KMapping \<and> kind_of v2 = KMapping)"
  shows "compare_values f v1 v2 =
     Inr \<lparr>db1 = PStr (py_str v1), db2 = PStr (py_str v2), diff = (\<not> py_eq v1 v2)\<rparr>"
  using assms by (cases v1; cases v2) simp_all

lemma py_eq_kinds:
  assumes "py_eq v1 v2"
  shows "kind_of v1 = kind_of v2 \<or> (kind_of v1 \<in> {KBool, KNumber} \<and> kind_of v2 \<in> {KBool, KNumber})"
  using assms by (cases v1; cases v2) simp_all

lemma compare_values_cases:
  "compare_values field v1 v2 = Inr fd \<Longrightarrow>
   (\<forall>l1 l2. v1 = PList l1 \<and> v2 = PList l2 \<and> field = ''VpcSecurityGroups'' \<longrightarrow>
      (\<exists>ids1 ids2. sorted_sg_ids l1 = Inr ids1 \<and> sorted_sg_ids l2 = Inr ids2 \<and>
         fd = \<lparr>db1 = PList ids1, db2 = PList ids2, diff = (\<not> py_eq (PList ids1) (PList ids2))\<rparr>)) \<and>
   (\<forall>l1 l2. v1 = PList l1 \<and> v2 = PList l2 \<and> field \<noteq> ''VpcSecurityGroups'' \<longrightarrow>
      (\<exists>s1 s2. py_sorted l1 = Inr s1 \<and> py_sorted l2 = Inr s2 \<and>
         fd = \<lparr>db1 = PList l1, db2 = PList l2, diff = (\<not> py_eq (PList s1) (PList s2))\<rparr>)) \<and>
   (\<forall>m1 m2. v1 = PDict m1 \<and> v2 = PDict m2 \<longrightarrow>
      fd = \<lparr>db1 = PDict m1, db2 = PDict m2,
            diff = (json_dumps (PDict m1) \<noteq> json_dumps (PDict m2))\<rparr>) \<and>
   (\<not> (kind_of v1 = KSequence \<and> kind_of v2 = KSequence) \<and>
    \<not> (kind_of v1 = KMapping \<and> kind_of v2 = KMapping) \<longrightarrow>
      fd = \<lparr>db1 = PStr (py_str v1), db2 = PStr (py_str v2), diff = (\<not> py_eq v1 v2)\<rparr>)"
  by (cases v1; cases v2) (auto split: sum.splits if_splits)

lemma set_py_insort: "py_insort x ys = Inr zs \<Longrightarrow> mset zs = add_mset x (mset ys)"
  by (induction ys arbitrary: zs) (auto split: sum.splits bool.splits)

lemma mset_py_sorted: "py_sorted xs = Inr ys \<Longrightarrow> mset ys = mset xs"
  by (induction xs arbitrary: ys) (auto split: sum.splits dest: set_py_insort)

lemma py_insort_total:
  "\<forall>y \<in> set ys. can_lt y x \<Longrightarrow> \<exists>zs. py_insort x ys = Inr zs"
  by (induction ys) (auto simp: can_lt_def split: sum.splits bool.splits)

lemma py_sorted_total: "orderable xs \<Longrightarrow> \<exists>ys. py_sorted xs = Inr ys"
proof (induction xs)
  case Nil then show ?case by simp
next
  case (Cons x xs)
  then obtain ys where ys: "py_sorted xs = Inr ys" by auto
  then have "set ys = set xs" by (metis mset_py_sorted set_mset_mset)
  with Cons.prems have "\<forall>y \<in> set ys. can_lt y x" by (simp add: list_all_iff)
  from py_insort_total [OF this] ys show ?case by simp
qed

section \<open>What a field difference records\<close>

text \<open>
  C1, as amended: for every pair of present records and every requested field, the entry
  recorded for the field holds, for the security-group list, the two sorted identifier lists
  that were compared; for other lists, the two input lists as given, while the test compares
  their sorted copies; for mappings, the two input mappings as given, while the test compares
  their key-sorted serializations; for all other values, the \<open>str\<close> of the two values, while
  the test is Python's equality of the values themselves.
\<close>

theorem recorded_forms:
  assumes "d1 \<noteq> []" "d2 \<noteq> []" "field \<in> set fs"
    and "compare_rds_fields (Some d1) (Some d2) fs = Inr r"
  shows "\<exists>fd. map_of (differences r) field = Some fd \<and>
   (\<forall>l1 l2. dict_get d1 field = PList l1 \<and> dict_get d2 field = PList l2 \<and>
        field = ''VpcSecurityGroups'' \<longrightarrow>
      (\<exists>ids1 ids2. sorted_sg_ids l1 = Inr ids1 \<and> sorted_sg_ids l2 = Inr ids2 \<and>
         fd = \<lparr>db1 = PList ids1, db2 = PList ids2, diff = (\<not> py_eq (PList ids1) (PList ids2))\<rparr>)) \<and>
   (\<forall>l1 l2. dict_get d1 field = PList l1 \<and> dict_get d2 field = PList l2 \<and>
        field \<noteq> ''VpcSecurityGroups'' \<longrightarrow>
      (\<exists>s1 s2. py_sorted l1 = Inr s1 \<and> py_sorted l2 = Inr s2 \<and>
         fd = \<lparr>db1 = PList l1, db2 = PList l2, diff = (\<not> py_eq (PList s1) (PList s2))\<rparr>)) \<and>
   (\<forall>m1 m2. dict_get d1 field = PDict m1 \<and> dict_get d2 field = PDict m2 \<longrightarrow>
      fd = \<lparr>db1 = PDict m1, db2 = PDict m2,
            diff = (json_dumps (PDict m1) \<noteq> json_dumps (PDict m2))\<rparr>) \<and>
   (\<not> (kind_of (dict_get d1 field) = KSequence \<and> kind_of (dict_get d2 field) = KSequence) \<and>
    \<not> (kind_of (dict_get d1 field) = KMapping \<and> kind_of (dict_get d2 field) = KMapping) \<longrightarrow>
      fd = \<lparr>db1 = PStr (py_str (dict_get d1 field)), db2 = PStr (py_str (dict_get d2 field)),
            diff = (\<not> py_eq (dict_get d1 field) (dict_get d2 field))\<rparr>)"
proof -
  from compare_entry [OF assms(1,2,4,3)] obtain fd where
    cf: "compare_field d1 d2 field = Inr fd" and m: "map_of (differences r) field = Some fd"
    by blast
  from cf have "compare_values field (dict_get d1 field) (dict_get d2 field) = Inr fd"
    by (simp add: compare_field_def)
  note F = compare_values_cases [OF this]
  show ?thesis by (rule exI [of _ fd], rule conjI, rule m, rule F)
qed

theorem recorded_forms_witness:
  "compare_rds_fields (Some [(''Tags'', PList [PStr ''b'', PStr ''a''])])
     (Some [(''Tags'', PList [PStr ''a'', PStr ''b''])]) [''Tags''] =
     Inr \<lparr>status = ''SUCCESS'', message = ''No differences found for specified fields.'',
          differences = [(''Tags'', \<lparr>db1 = PList [PStr ''b'', PStr ''a''],
                                     db2 = PList [PStr ''a'', PStr ''b''], diff = False\<rparr>)]\<rparr> \<and>
   (\<exists>fd s1 s2. py_sorted [PStr ''b'', PStr ''a''] = Inr s1 \<and>
       py_sorted [PStr ''a'', PStr ''b''] = Inr s2 \<and>
       fd = \<lparr>db1 = PList [PStr ''b'', PStr ''a''], db2 = PList [PStr ''a'', PStr ''b''],
             diff = (\<not> py_eq (PList s1) (PList s2))\<rparr>)"
proof -
  let ?A = "[(''Tags'', PList [PStr ''b'', PStr ''a''])]"
  let ?B = "[(''Tags'', PList [PStr ''a'', PStr ''b''])]"
  let ?R = "\<lparr>status = ''SUCCESS'', message = ''No differences found for specified fields.'',
          differences = [(''Tags'', \<lparr>db1 = PList [PStr ''b'', PStr ''a''],
                                     db2 = PList [PStr ''a'', PStr ''b''], diff = False\<rparr>)]\<rparr>"
  have h: "compare_rds_fields (Some ?A) (Some ?B) [''Tags''] = Inr ?R"
    by (simp add: compare_rds_fields_def compare_field_def dict_get_def less_char_def)
  have ne: "?A \<noteq> []" "?B \<noteq> []" and mem: "''Tags'' \<in> set [''Tags'']" by simp_all
  have g: "dict_get ?A ''Tags'' = PList [PStr ''b'', PStr ''a''] \<and>
           dict_get ?B ''Tags'' = PList [PStr ''a'', PStr ''b''] \<and> ''Tags'' \<noteq> ''VpcSecurityGroups''"
    by (simp add: dict_get_def)
  from recorded_forms [OF ne mem h] obtain fd where
    "\<forall>l1 l2. dict_get ?A ''Tags'' = PList l1 \<and> dict_get ?B ''Tags'' = PList l2 \<and>
        ''Tags'' \<noteq> ''VpcSecurityGroups'' \<longrightarrow>
      (\<exists>s1 s2. py_sorted l1 = Inr s1 \<and> py_sorted l2 = Inr s2 \<and>
         fd = \<lparr>db1 = PList l1, db2 = PList l2, diff = (\<not> py_eq (PList s1) (PList s2))\<rparr>)"
    by (elim exE conjE) (rule that)
  with g have "\<exists>s1 s2. py_sorted [PStr ''b'', PStr ''a''] = Inr s1 \<and>
       py_sorted [PStr ''a'', PStr ''b''] = Inr s2 \<and>
       fd = \<lparr>db1 = PList [PStr ''b'', PStr ''a''], db2 = PList [PStr ''a'', PStr ''b''],
             diff = (\<not> py_eq (PList s1) (PList s2))\<rparr>"
    by blast
  with h show ?thesis by blast
qed

text \<open>
  C1, as stated, asks that the recorded forms be the normalized forms that were compared.
  For lists \<open>[''b'', ''a'']\<close> and \<open>[''a'', ''b'']\<close> the test compares the sorted copies and
  finds no difference, but the report records the two unsorted, different inputs.
\<close>

theorem recorded_forms_not_normalized:
  "compare_rds_fields (Some [(''Tags'', PList [PStr ''b'', PStr ''a''])])
     (Some [(''Tags'', PList [PStr ''a'', PStr ''b''])]) [''Tags''] =
     Inr \<lparr>status = ''SUCCESS'', message = ''No differences found for specified fields.'',
          differences = [(''Tags'', \<lparr>db1 = PList [PStr ''b'', PStr ''a''],
                                     db2 = PList [PStr ''a'', PStr ''b''], diff = False\<rparr>)]\<rparr> \<and>
   py_sorted [PStr ''b'', PStr ''a''] = Inr [PStr ''a'', PStr ''b''] \<and>
   PList [PStr ''b'', PStr ''a''] \<noteq> PList [PStr ''a'', PStr ''b'']"
  by (simp add: compare_rds_fields_def compare_field_def dict_get_def less_char_def)

section \<open>Lists that are not the security-group list\<close>

text \<open>
  When the elements of both lists are mutually orderable, both sorts succeed and the field
  is decided by the equality of the sorted lists.
\<close>

lemma orderable_lists_compare:
  assumes "dict_get d1 field = PList l1" "dict_get d2 field = PList l2"
    and "field \<noteq> ''VpcSecurityGroups''" and "orderable l1" "orderable l2"
  shows "\<exists>s1 s2 r. py_sorted l1 = Inr s1 \<and> py_sorted l2 = Inr s2 \<and>
           compare_field d1 d2 field =
             Inr \<lparr>db1 = PList l1, db2 = PList l2, diff = (\<not> py_eq (PList s1) (PList s2))\<rparr> \<and>
           compare_rds_fields (Some d1) (Some d2) [field] = Inr r \<and>
           map_of (differences r) field =
             Some \<lparr>db1 = PList l1, db2 = PList l2, diff = (\<not> py_eq (PList s1) (PList s2))\<rparr>"
proof -
  from py_sorted_total [OF assms(4)] obtain s1 where s1: "py_sorted l1 = Inr s1" ..
  from py_sorted_total [OF assms(5)] obtain s2 where s2: "py_sorted l2 = Inr s2" ..
  have cf: "compare_field d1 d2 field =
      Inr \<lparr>db1 = PList l1, db2 = PList l2, diff = (\<not> py_eq (PList s1) (PList s2))\<rparr>"
    unfolding compare_field_def assms(1,2) using assms(3) s1 s2 by simp
  have ne: "d1 \<noteq> []" "d2 \<noteq> []" using assms(1,2) by (auto simp: dict_get_def)
  from compare_single [OF ne cf] s1 s2 cf show ?thesis by blast
qed

text \<open>
  C2: the claim is that, for a field other than the security-group list whose values are
  lists of elements that cannot be ordered, the comparison falls back to order-preserving
  equality and no exception leaves the function. The code has no such fall-back and catches
  nothing: for two identical records whose \<open>DBParameterGroups\<close> is a list of two dictionaries,
  \<open>sorted\<close> raises \<open>TypeError\<close> and the exception leaves \<open>compare_rds_fields\<close>, although
  its docstring announces that lists of dictionaries are handled.
\<close>

theorem unorderable_list_raises:
  "compare_rds_fields
     (Some [(''DBParameterGroups'',
        PList [PDict [(''DBParameterGroupName'', PStr ''a'')],
               PDict [(''DBParameterGroupName'', PStr ''b'')]])])
     (Some [(''DBParameterGroups'',
        PList [PDict [(''DBParameterGroupName'', PStr ''a'')],
               PDict [(''DBParameterGroupName'', PStr ''b'')]])])
     [''DBParameterGroups''] = Inl TypeError"
  by (simp add: compare_rds_fields_def compare_field_def dict_get_def)

section \<open>Scalars and mismatched kinds\<close>

text \<open>
  C3, as amended: for every pair of present records and every requested field whose two
  values are not both lists and not both mappings, the entry records the \<open>str\<close> of the two
  values and \<open>diff\<close> is the negation of Python's equality of the values; whenever the two
  values are of different kinds, other than a boolean against a number, \<open>diff\<close> is true.
\<close>

theorem other_values_python_equality:
  assumes "d1 \<noteq> []" "d2 \<noteq> []" "field \<in> set fs"
    and "compare_rds_fields (Some d1) (Some d2) fs = Inr r"
    and "\<not> (kind_of (dict_get d1 field) = KSequence \<and> kind_of (dict_get d2 field) = KSequence)"
    and "\<not> (kind_of (dict_get d1 field) = KMapping \<and> kind_of (dict_get d2 field) = KMapping)"
  shows "map_of (differences r) field =
           Some \<lparr>db1 = PStr (py_str (dict_get d1 field)), db2 = PStr (py_str (dict_get d2 field)),
                 diff = (\<not> py_eq (dict_get d1 field) (dict_get d2 field))\<rparr> \<and>
         (kind_of (dict_get d1 field) \<noteq> kind_of (dict_get d2 field) \<and>
          \<not> (kind_of (dict_get d1 field) \<in> {KBool, KNumber} \<and>
             kind_of (dict_get d2 field) \<in> {KBool, KNumber})
          \<longrightarrow> \<not> py_eq (dict_get d1 field) (dict_get d2 field))"
proof -
  have cf: "compare_field d1 d2 field =
      Inr \<lparr>db1 = PStr (py_str (dict_get d1 field)), db2 = PStr (py_str (dict_get d2 field)),
           diff = (\<not> py_eq (dict_get d1 field) (dict_get d2 field))\<rparr>"
    unfolding compare_field_def by (rule compare_values_other [OF assms(5,6)])
  from report_entry [OF assms(1,2,4,3) cf] py_eq_kinds [of "dict_get d1 field" "dict_get d2 field"]
  show ?thesis by blast
qed

theorem other_values_python_equality_witness:
  "compare_rds_fields (Some [(''MultiAZ'', PBool True)]) (Some [(''MultiAZ'', PStr ''True'')])
     [''MultiAZ''] =
     Inr \<lparr>status = ''DIFFERENCES_FOUND'',
          message = ''Differences found for one or more specified fields.'',
          differences = [(''MultiAZ'', \<lparr>db1 = PStr ''True'', db2 = PStr ''True'', diff = True\<rparr>)]\<rparr> \<and>
   \<not> py_eq (dict_get [(''MultiAZ'', PBool True)] ''MultiAZ'')
          (dict_get [(''MultiAZ'', PStr ''True'')] ''MultiAZ'')"
proof -
  let ?A = "[(''MultiAZ'', PBool True)]"
  let ?B = "[(''MultiAZ'', PStr ''True'')]"
  let ?R = "\<lparr>status = ''DIFFERENCES_FOUND'',
          message = ''Differences found for one or more specified fields.'',
          differences = [(''MultiAZ'', \<lparr>db1 = PStr ''True'', db2 = PStr ''True'', diff = True\<rparr>)]\<rparr>"
  have h: "compare_rds_fields (Some ?A) (Some ?B) [''MultiAZ''] = Inr ?R"
    by code_simp
  have ne: "?A \<noteq> []" "?B \<noteq> []" and mem: "''MultiAZ'' \<in> set [''MultiAZ'']" by simp_all
  have k: "\<not> (kind_of (dict_get ?A ''MultiAZ'') = KSequence \<and> kind_of (dict_get ?B ''MultiAZ'') = KSequence)"
    "\<not> (kind_of (dict_get ?A ''MultiAZ'') = KMapping \<and> kind_of (dict_get ?B ''MultiAZ'') = KMapping)"
    by (simp_all add: dict_get_def)
  have k2: "kind_of (dict_get ?A ''MultiAZ'') \<noteq> kind_of (dict_get ?B ''MultiAZ'') \<and>
          \<not> (kind_of (dict_get ?A ''MultiAZ'') \<in> {KBool, KNumber} \<and>
             kind_of (dict_get ?B ''MultiAZ'') \<in> {KBool, KNumber})"
    by (simp add: dict_get_def)
  from other_values_python_equality [OF ne mem h k] k2
  have "\<not> py_eq (dict_get ?A ''MultiAZ'') (dict_get ?B ''MultiAZ'')" by blast
  with h show ?thesis by blast
qed

text \<open>
  C3, as stated, has every pair of values of different kinds differ. \<open>True\<close> and \<open>1\<close> are a
  boolean and a number, and Python's \<open>True != 1\<close> is false: \<open>diff\<close> is false.
\<close>

theorem bool_equals_number:
  "kind_of (PBool True) \<noteq> kind_of (PInt 1) \<and>
   compare_rds_fields (Some [(''MultiAZ'', PBool True)]) (Some [(''MultiAZ'', PInt 1)]) [''MultiAZ''] =
     Inr \<lparr>status = ''SUCCESS'', message = ''No differences found for specified fields.'',
          differences = [(''MultiAZ'', \<lparr>db1 = PStr ''True'', db2 = PStr ''1'', diff = False\<rparr>)]\<rparr>"
  by code_simp

section \<open>Missing fields\<close>

text \<open>
  C6, as amended: for every pair of present records and every requested field missing from
  at least one of them, the lookup gives \<open>None\<close> and the comparison of the field raises
  nothing; a field missing from both records has \<open>diff = False\<close>, and a field missing from
  exactly one has \<open>diff = True\<close> exactly when the value in the other record is not \<open>None\<close>.
\<close>

theorem missing_field_semantics:
  assumes "d1 \<noteq> []" "d2 \<noteq> []" "field \<in> set fs"
    and "compare_rds_fields (Some d1) (Some d2) fs = Inr r"
    and "map_of d1 field = None \<or> map_of d2 field = None"
  shows "\<exists>fd. compare_field d1 d2 field = Inr fd \<and> map_of (differences r) field = Some fd \<and>
           (map_of d1 field = None \<and> map_of d2 field = None \<longrightarrow> \<not> diff fd) \<and>
           (\<forall>v. map_of d1 field = None \<and> map_of d2 field = Some v \<longrightarrow> (diff fd \<longleftrightarrow> v \<noteq> PNone)) \<and>
           (\<forall>v. map_of d1 field = Some v \<and> map_of d2 field = None \<longrightarrow> (diff fd \<longleftrightarrow> v \<noteq> PNone))"
proof -
  from assms(5) show ?thesis
  proof
    assume a: "map_of d1 field = None"
    then have n: "dict_get d1 field = PNone" by (simp add: dict_get_def)
    have cf: "compare_field d1 d2 field =
        Inr \<lparr>db1 = PStr ''None'', db2 = PStr (py_str (dict_get d2 field)),
             diff = (dict_get d2 field \<noteq> PNone)\<rparr>"
      unfolding compare_field_def n by (rule compare_values_None_left)
    from report_entry [OF assms(1,2,4,3) cf] cf a show ?thesis
      by (auto simp: dict_get_def)
  next
    assume a: "map_of d2 field = None"
    then have n: "dict_get d2 field = PNone" by (simp add: dict_get_def)
    have cf: "compare_field d1 d2 field =
        Inr \<lparr>db1 = PStr (py_str (dict_get d1 field)), db2 = PStr ''None'',
             diff = (dict_get d1 field \<noteq> PNone)\<rparr>"
      unfolding compare_field_def n by (rule compare_values_None_right)
    from report_entry [OF assms(1,2,4,3) cf] cf a show ?thesis
      by (auto simp: dict_get_def)
  qed
qed

theorem missing_field_semantics_witness:
  "compare_rds_fields (Some [(''Engine'', PStr ''mysql''), (''Iops'', PInt 1000)])
     (Some [(''Engine'', PStr ''mysql'')]) [''Iops'', ''KmsKeyId''] =
     Inr \<lparr>status = ''DIFFERENCES_FOUND'',
          message = ''Differences found for one or more specified fields.'',
          differences =
            [(''Iops'', \<lparr>db1 = PStr ''1000'', db2 = PStr ''None'', diff = True\<rparr>),
             (''KmsKeyId'', \<lparr>db1 = PStr ''None'', db2 = PStr ''None'', diff = False\<rparr>)]\<rparr> \<and>
   (\<exists>fd. compare_field [(''Engine'', PStr ''mysql''), (''Iops'', PInt 1000)]
           [(''Engine'', PStr ''mysql'')] ''Iops'' = Inr fd \<and> diff fd) \<and>
   (\<exists>fd. compare_field [(''Engine'', PStr ''mysql''), (''Iops'', PInt 1000)]
           [(''Engine'', PStr ''mysql'')] ''KmsKeyId'' = Inr fd \<and> \<not> diff fd)"
proof -
  let ?A = "[(''Engine'', PStr ''mysql''), (''Iops'', PInt 1000)]"
  let ?B = "[(''Engine'', PStr ''mysql'')]"
  let ?R = "\<lparr>status = ''DIFFERENCES_FOUND'',
          message = ''Differences found for one or more specified fields.'',
          differences =
            [(''Iops'', \<lparr>db1 = PStr ''1000'', db2 = PStr ''None'', diff = True\<rparr>),
             (''KmsKeyId'', \<lparr>db1 = PStr ''None'', db2 = PStr ''None'', diff = False\<rparr>)]\<rparr>"
  have h: "compare_rds_fields (Some ?A) (Some ?B) [''Iops'', ''KmsKeyId''] = Inr ?R"
    by code_simp
  have ne: "?A \<noteq> []" "?B \<noteq> []" by simp_all
  have m1: "''Iops'' \<in> set [''Iops'', ''KmsKeyId'']" and m2: "''KmsKeyId'' \<in> set [''Iops'', ''KmsKeyId'']"
    by simp_all
  have a1: "map_of ?A ''Iops'' = None \<or> map_of ?B ''Iops'' = None"
    and a2: "map_of ?A ''KmsKeyId'' = None \<or> map_of ?B ''KmsKeyId'' = None" by simp_all
  have v1: "map_of ?A ''Iops'' = Some (PInt 1000) \<and> map_of ?B ''Iops'' = None" by simp
  have v2: "map_of ?A ''KmsKeyId'' = None \<and> map_of ?B ''KmsKeyId'' = None" by simp
  from missing_field_semantics [OF ne m1 h a1] v1
  have "\<exists>fd. compare_field ?A ?B ''Iops'' = Inr fd \<and> diff fd" by blast
  moreover from missing_field_semantics [OF ne m2 h a2] v2
  have "\<exists>fd. compare_field ?A ?B ''KmsKeyId'' = Inr fd \<and> \<not> diff fd" by blast
  ultimately show ?thesis using h by blast
qed

text \<open>
  C6, as stated, has a field that is missing from exactly one record differ. A field
  present with the value \<open>None\<close> in one record and missing from the other does not.
\<close>

theorem present_none_equals_missing:
  "map_of [(''Engine'', PStr ''mysql''), (''Iops'', PNone)] ''Iops'' = Some PNone \<and>
   map_of [(''Engine'', PStr ''mysql'')] ''Iops'' = None \<and>
   compare_rds_fields (Some [(''Engine'', PStr ''mysql''), (''Iops'', PNone)])
     (Some [(''Engine'', PStr ''mysql'')]) [''Iops''] =
     Inr \<lparr>status = ''SUCCESS'', message = ''No differences found for specified fields.'',
          differences = [(''Iops'', \<lparr>db1 = PStr ''None'', db2 = PStr ''None'', diff = False\<rparr>)]\<rparr>"
  by (simp add: compare_rds_fields_def compare_field_def dict_get_def)

section \<open>Python's equality and order on well-formed values\<close>

text \<open>
  On values whose dictionaries have no duplicate keys, \<open>==\<close> is an equivalence.
\<close>

lemma py_eq_list_all2: "py_eq_list xs ys \<longleftrightarrow> list_all2 py_eq xs ys"
proof (induction xs arbitrary: ys)
  case Nil then show ?case by (cases ys) simp_all
next
  case (Cons x xs) then show ?case by (cases ys) simp_all
qed

lemma py_dict_sub_iff:
  "py_dict_sub a b \<longleftrightarrow> (\<forall>kv \<in> set a. \<exists>w. map_of b (fst kv) = Some w \<and> py_eq (snd kv) w)"
  by (induction a) (auto split: option.splits)

lemma distinct_keys_eq:
  assumes "distinct (map fst a)" "distinct (map fst b)" "length a = length b"
    and "fst ` set a \<subseteq> fst ` set b"
  shows "fst ` set a = fst ` set b"
proof -
  have "card (fst ` set a) = length a" using assms(1) distinct_card [of "map fst a"] by simp
  moreover have "card (fst ` set b) = length b" using assms(2) distinct_card [of "map fst b"] by simp
  ultimately show ?thesis using assms(3,4) by (simp add: card_subset_eq)
qed

lemma py_dict_sub_keys: "py_dict_sub a b \<Longrightarrow> fst ` set a \<subseteq> fst ` set b"
  by (auto simp: py_dict_sub_iff dest!: map_of_SomeD bspec intro: rev_image_eqI)

lemma wf_val_snd: "wf_val (PDict a) \<Longrightarrow> kv \<in> set a \<Longrightarrow> wf_val (snd kv)"
  by (simp add: list_all_iff)

lemma wf_val_elem: "wf_val (PList xs) \<Longrightarrow> x \<in> set xs \<Longrightarrow> wf_val x"
  by (simp add: list_all_iff)

lemma py_eq_refl: "wf_val v \<Longrightarrow> py_eq v v"
proof (induction v)
  case (PList xs)
  then have "list_all2 py_eq xs xs" by (simp add: list_all2_same list_all_iff)
  then show ?case by (simp add: py_eq_list_all2)
next
  case (PDict a)
  have "\<forall>kv \<in> set a. \<exists>w. map_of a (fst kv) = Some w \<and> py_eq (snd kv) w"
  proof
    fix kv assume kv: "kv \<in> set a"
    then have "map_of a (fst kv) = Some (snd kv)" using PDict.prems by simp
    moreover have "py_eq (snd kv) (snd kv)"
      using PDict.IH [of kv "snd kv"] kv wf_val_snd [OF PDict.prems kv]
      by (cases kv) simp
    ultimately show "\<exists>w. map_of a (fst kv) = Some w \<and> py_eq (snd kv) w" by blast
  qed
  then show ?case by (simp add: py_dict_sub_iff)
qed simp_all

lemma py_eq_sym: "wf_val v \<Longrightarrow> wf_val w \<Longrightarrow> py_eq v w \<Longrightarrow> py_eq w v"
proof (induction v arbitrary: w)
  case (PList xs)
  from PList.prems(3) obtain ys where w: "w = PList ys" by (cases w) simp_all
  from PList.prems(3) have l: "list_all2 py_eq xs ys" by (simp add: w py_eq_list_all2)
  have "list_all2 py_eq ys xs"
    unfolding list_all2_conv_all_nth
  proof (intro conjI allI impI)
    show "length ys = length xs" using l by (simp add: list_all2_lengthD)
    fix i assume i: "i < length ys"
    then have ix: "i < length xs" using l by (simp add: list_all2_lengthD)
    have "py_eq (xs ! i) (ys ! i)" using l ix by (simp add: list_all2_conv_all_nth)
    moreover have "wf_val (xs ! i)" "wf_val (ys ! i)"
      using PList.prems(1,2) i ix by (simp_all add: w list_all_length)
    ultimately show "py_eq (ys ! i) (xs ! i)" using PList.IH [of "xs ! i" "ys ! i"] ix by simp
  qed
  then show ?case by (simp add: w py_eq_list_all2)
next
  case (PDict a)
  from PDict.prems(3) obtain b where w: "w = PDict b" by (cases w) simp_all
  from PDict.prems(3) have len: "length a = length b" and sub: "py_dict_sub a b"
    by (simp_all add: w)
  have da: "distinct (map fst a)" and db: "distinct (map fst b)"
    using PDict.prems(1,2) by (simp_all add: w)
  have keys: "fst ` set a = fst ` set b"
    by (rule distinct_keys_eq [OF da db len py_dict_sub_keys [OF sub]])
  have "\<forall>kw \<in> set b. \<exists>v. map_of a (fst kw) = Some v \<and> py_eq (snd kw) v"
  proof
    fix kw assume kw: "kw \<in> set b"
    then have "fst kw \<in> fst ` set a" using keys by auto
    then obtain kv where kv: "kv \<in> set a" "fst kv = fst kw" by auto
    from sub kv(1) obtain w' where w': "map_of b (fst kv) = Some w'" "py_eq (snd kv) w'"
      by (auto simp: py_dict_sub_iff)
    have "map_of b (fst kw) = Some (snd kw)" using db kw by simp
    with w'(1) kv(2) have "w' = snd kw" by simp
    with w'(2) have e: "py_eq (snd kv) (snd kw)" by simp
    have "wf_val (snd kv)" by (rule wf_val_snd [OF PDict.prems(1) kv(1)])
    moreover have "wf_val (snd kw)" using PDict.prems(2) kw by (simp add: w list_all_iff)
    ultimately have "py_eq (snd kw) (snd kv)"
      using PDict.IH [of kv "snd kv" "snd kw"] kv(1) e by (cases kv) simp
    moreover have "map_of a (fst kw) = Some (snd kv)" using da kv by (metis map_of_is_SomeI prod.collapse)
    ultimately show "\<exists>v. map_of a (fst kw) = Some v \<and> py_eq (snd kw) v" by blast
  qed
  then show ?case using len by (simp add: w py_dict_sub_iff)
next
  case PNone then show ?case by (cases w) simp_all
next
  case (PBool b) then show ?case by (cases w) auto
next
  case (PInt i) then show ?case by (cases w) auto
next
  case (PStr s) then show ?case by (cases w) auto
qed

lemma py_eq_trans: "py_eq u v \<Longrightarrow> py_eq v w \<Longrightarrow> py_eq u w"
proof (induction u arbitrary: v w)
  case (PList xs)
  from PList.prems(1) obtain ys where v: "v = PList ys" by (cases v) simp_all
  from PList.prems(2) obtain zs where w: "w = PList zs" by (cases w) (simp_all add: v)
  from PList.prems have l1: "list_all2 py_eq xs ys" and l2: "list_all2 py_eq ys zs"
    by (simp_all add: v w py_eq_list_all2)
  have "list_all2 py_eq xs zs"
    unfolding list_all2_conv_all_nth
  proof (intro conjI allI impI)
    show "length xs = length zs" using l1 l2 by (simp add: list_all2_lengthD)
    fix i assume i: "i < length xs"
    then have "py_eq (xs ! i) (ys ! i)" "py_eq (ys ! i) (zs ! i)"
      using l1 l2 by (simp_all add: list_all2_conv_all_nth)
    then show "py_eq (xs ! i) (zs ! i)" using PList.IH [of "xs ! i"] i by simp
  qed
  then show ?case by (simp add: w py_eq_list_all2)
next
  case (PDict a)
  from PDict.prems(1) obtain b where v: "v = PDict b" by (cases v) simp_all
  from PDict.prems(2) obtain c where w: "w = PDict c" by (cases w) (simp_all add: v)
  from PDict.prems have len: "length a = length c" and s1: "py_dict_sub a b" and s2: "py_dict_sub b c"
    by (simp_all add: v w)
  have "\<forall>kv \<in> set a. \<exists>x. map_of c (fst kv) = Some x \<and> py_eq (snd kv) x"
  proof
    fix kv assume kv: "kv \<in> set a"
    with s1 obtain y where y: "map_of b (fst kv) = Some y" "py_eq (snd kv) y"
      by (auto simp: py_dict_sub_iff)
    from y(1) have "(fst kv, y) \<in> set b" by (rule map_of_SomeD)
    with s2 obtain x where x: "map_of c (fst kv) = Some x" "py_eq y x"
      by (fastforce simp: py_dict_sub_iff)
    from PDict.IH [of kv "snd kv" y x] kv y(2) x(2) have "py_eq (snd kv) x"
      by (cases kv) simp
    with x(1) show "\<exists>x. map_of c (fst kv) = Some x \<and> py_eq (snd kv) x" by blast
  qed
  then show ?case using len by (simp add: w py_dict_sub_iff)
next
  case PNone then show ?case by (cases v; cases w) simp_all
next
  case (PBool b) then show ?case by (cases v; cases w) (auto simp: int_of_bool_def split: if_splits)
next
  case (PInt i) then show ?case by (cases v; cases w) (auto simp: int_of_bool_def split: if_splits)
next
  case (PStr s) then show ?case by (cases v; cases w) auto
qed

text \<open>
  \<open><\<close> respects \<open>==\<close> on both sides; where it does not raise it is asymmetric and negatively
  transitive, and two values neither of which is smaller than the other are equal.
\<close>

lemma py_eq_left_iff:
  assumes "wf_val x" "wf_val x'" "py_eq x x'"
  shows "py_eq x y \<longleftrightarrow> py_eq x' y"
  using assms py_eq_sym py_eq_trans by blast

lemma py_eq_right_iff:
  assumes "wf_val y" "wf_val y'" "py_eq y y'"
  shows "py_eq x y \<longleftrightarrow> py_eq x y'"
  using assms py_eq_sym py_eq_trans by blast

lemma py_lt_list_cong_left:
  assumes "\<And>x x' y. x \<in> set xs \<Longrightarrow> wf_val x \<Longrightarrow> wf_val x' \<Longrightarrow> py_eq x x' \<Longrightarrow> py_lt x y = py_lt x' y"
    and "list_all2 py_eq xs xs'" and "list_all wf_val xs" and "list_all wf_val xs'"
  shows "py_lt_list xs ys = py_lt_list xs' ys"
  using assms
proof (induction xs arbitrary: xs' ys)
  case Nil
  then show ?case by simp
next
  case (Cons x xt)
  from Cons.prems(2) obtain x' xt' where xs': "xs' = x' # xt'" and e: "py_eq x x'"
    and l: "list_all2 py_eq xt xt'"
    by (cases xs') auto
  have w: "wf_val x" "wf_val x'" "list_all wf_val xt" "list_all wf_val xt'"
    using Cons.prems(3,4) by (simp_all add: xs')
  show ?case
  proof (cases ys)
    case Nil
    then show ?thesis by (simp add: xs')
  next
    case (Cons y yt)
    have 1: "py_eq x y \<longleftrightarrow> py_eq x' y" by (rule py_eq_left_iff [OF w(1,2) e])
    have 2: "py_lt x y = py_lt x' y" using Cons.prems(1) [of x x' y] w e by simp
    have 3: "py_lt_list xt yt = py_lt_list xt' yt"
      using Cons.IH [OF _ l w(3,4)] Cons.prems(1) by simp
    show ?thesis by (simp add: xs' Cons 1 2 3)
  qed
qed

lemma py_lt_cong_left:
  "wf_val a \<Longrightarrow> wf_val a' \<Longrightarrow> py_eq a a' \<Longrightarrow> py_lt a b = py_lt a' b"
proof (induction a arbitrary: a' b)
  case (PList xs)
  from PList.prems(3) obtain xs' where a': "a' = PList xs'" by (cases a') simp_all
  from PList.prems have l: "list_all2 py_eq xs xs'" and w: "list_all wf_val xs" "list_all wf_val xs'"
    by (simp_all add: a' py_eq_list_all2)
  show ?case
  proof (cases b)
    case (PList ys)
    have "py_lt_list xs ys = py_lt_list xs' ys"
      by (rule py_lt_list_cong_left [OF _ l w]) (rule PList.IH)
    then show ?thesis by (simp add: a' PList)
  qed (simp_all add: a')
next
  case (PDict a)
  then show ?case by (cases a') simp_all
next
  case PNone then show ?case by (cases a') simp_all
next
  case (PBool x) then show ?case by (cases a'; cases b) (auto simp: int_of_bool_def split: if_splits)
next
  case (PInt i) then show ?case by (cases a'; cases b) (auto simp: int_of_bool_def split: if_splits)
next
  case (PStr s) then show ?case by (cases a'; cases b) auto
qed

lemma py_lt_list_cong_right:
  assumes "\<And>x y y'. x \<in> set xs \<Longrightarrow> wf_val y \<Longrightarrow> wf_val y' \<Longrightarrow> py_eq y y' \<Longrightarrow> py_lt x y = py_lt x y'"
    and "list_all2 py_eq ys ys'" and "list_all wf_val ys" and "list_all wf_val ys'"
  shows "py_lt_list xs ys = py_lt_list xs ys'"
  using assms
proof (induction xs arbitrary: ys ys')
  case Nil
  then show ?case by (cases ys; cases ys') simp_all
next
  case (Cons x xt)
  show ?case
  proof (cases ys)
    case Nil
    with Cons.prems(2) show ?thesis by simp
  next
    case (Cons y yt)
    from Cons.prems(2) Cons obtain y' yt' where ys': "ys' = y' # yt'" and e: "py_eq y y'"
      and l: "list_all2 py_eq yt yt'"
      by (cases ys') auto
    have w: "wf_val y" "wf_val y'" "list_all wf_val yt" "list_all wf_val yt'"
      using Cons.prems(3,4) by (simp_all add: ys' Cons)
    have 1: "py_eq x y \<longleftrightarrow> py_eq x y'" by (rule py_eq_right_iff [OF w(1,2) e])
    have 2: "py_lt x y = py_lt x y'" using Cons.prems(1) [of x y y'] w e by simp
    have 3: "py_lt_list xt yt = py_lt_list xt yt'"
      using Cons.IH [OF _ l w(3,4)] Cons.prems(1) by simp
    show ?thesis by (simp add: ys' Cons 1 2 3)
  qed
qed

lemma py_lt_cong_right:
  "wf_val b \<Longrightarrow> wf_val b' \<Longrightarrow> py_eq b b' \<Longrightarrow> py_lt a b = py_lt a b'"
proof (induction a arbitrary: b b')
  case (PList xs)
  show ?case
  proof (cases b)
    case (PList ys)
    with PList.prems(3) obtain ys' where b': "b' = PList ys'" by (cases b') simp_all
    from PList.prems have l: "list_all2 py_eq ys ys'" and w: "list_all wf_val ys" "list_all wf_val ys'"
      by (simp_all add: b' PList py_eq_list_all2)
    have "py_lt_list xs ys = py_lt_list xs ys'"
      by (rule py_lt_list_cong_right [OF _ l w]) (rule PList.IH)
    then show ?thesis by (simp add: b' PList)
  qed (use PList.prems(3) in \<open>cases b'; simp\<close>)+
next
  case (PDict a)
  then show ?case by (cases b; cases b') simp_all
next
  case PNone then show ?case by (cases b; cases b') simp_all
next
  case (PBool x) then show ?case by (cases b; cases b') (auto simp: int_of_bool_def split: if_splits)
next
  case (PInt i) then show ?case by (cases b; cases b') (auto simp: int_of_bool_def split: if_splits)
next
  case (PStr s) then show ?case by (cases b; cases b') auto
qed

lemma py_lt_list_asym:
  assumes "\<And>x y. x \<in> set xs \<Longrightarrow> wf_val x \<Longrightarrow> wf_val y \<Longrightarrow> py_lt x y = Inr True \<Longrightarrow> py_lt y x = Inr False"
    and "list_all wf_val xs" and "list_all wf_val ys" and "py_lt_list xs ys = Inr True"
  shows "py_lt_list ys xs = Inr False"
  using assms
proof (induction xs arbitrary: ys)
  case Nil
  then show ?case by (cases ys) simp_all
next
  case (Cons x xt)
  from Cons.prems(4) obtain y yt where ys: "ys = y # yt" by (cases ys) simp_all
  have w: "wf_val x" "wf_val y" "list_all wf_val xt" "list_all wf_val yt"
    using Cons.prems(2,3) by (simp_all add: ys)
  have s: "py_eq y x \<longleftrightarrow> py_eq x y" using w py_eq_sym by blast
  show ?case
  proof (cases "py_eq x y")
    case True
    with Cons.prems(4) have "py_lt_list xt yt = Inr True" by (simp add: ys)
    from Cons.IH [OF _ w(3,4) this] Cons.prems(1) have "py_lt_list yt xt = Inr False" by simp
    then show ?thesis using True s by (simp add: ys)
  next
    case False
    with Cons.prems(4) have "py_lt x y = Inr True" by (simp add: ys)
    from Cons.prems(1) [OF _ w(1,2) this] have "py_lt y x = Inr False" by simp
    then show ?thesis using False s by (simp add: ys)
  qed
qed

lemma py_lt_asym:
  "wf_val a \<Longrightarrow> wf_val b \<Longrightarrow> py_lt a b = Inr True \<Longrightarrow> py_lt b a = Inr False"
proof (induction a arbitrary: b)
  case (PList xs)
  from PList.prems(3) obtain ys where b: "b = PList ys" by (cases b) simp_all
  have "py_lt_list ys xs = Inr False"
    by (rule py_lt_list_asym [of xs ys]) (use PList b in simp_all)
  then show ?case by (simp add: b)
next
  case (PDict a) then show ?case by simp
next
  case PNone then show ?case by simp
next
  case (PBool x) then show ?case by (cases b) (auto simp: int_of_bool_def split: if_splits)
next
  case (PInt i) then show ?case by (cases b) (auto simp: int_of_bool_def split: if_splits)
next
  case (PStr s) then show ?case by (cases b) auto
qed

lemma py_lt_list_trichotomy:
  assumes "\<And>x y. x \<in> set xs \<Longrightarrow> wf_val x \<Longrightarrow> wf_val y \<Longrightarrow>
              py_lt x y = Inr False \<Longrightarrow> py_lt y x = Inr False \<Longrightarrow> py_eq x y"
    and "list_all wf_val xs" and "list_all wf_val ys"
    and "py_lt_list xs ys = Inr False" and "py_lt_list ys xs = Inr False"
  shows "list_all2 py_eq xs ys"
  using assms
proof (induction xs arbitrary: ys)
  case Nil
  then show ?case by (cases ys) simp_all
next
  case (Cons x xt)
  from Cons.prems(5) obtain y yt where ys: "ys = y # yt" by (cases ys) simp_all
  have w: "wf_val x" "wf_val y" "list_all wf_val xt" "list_all wf_val yt"
    using Cons.prems(2,3) by (simp_all add: ys)
  have s: "py_eq y x \<longleftrightarrow> py_eq x y" using w py_eq_sym by blast
  have e: "py_eq x y"
  proof (rule ccontr)
    assume n: "\<not> py_eq x y"
    with Cons.prems(4,5) s have "py_lt x y = Inr False" "py_lt y x = Inr False"
      by (simp_all add: ys)
    from Cons.prems(1) [OF _ w(1,2) this] n show False by simp
  qed
  with Cons.prems(4,5) s have "py_lt_list xt yt = Inr False" "py_lt_list yt xt = Inr False"
    by (simp_all add: ys)
  from Cons.IH [OF _ w(3,4) this] Cons.prems(1) have "list_all2 py_eq xt yt" by simp
  with e show ?case by (simp add: ys)
qed

lemma py_lt_trichotomy:
  "wf_val a \<Longrightarrow> wf_val b \<Longrightarrow> py_lt a b = Inr False \<Longrightarrow> py_lt b a = Inr False \<Longrightarrow> py_eq a b"
proof (induction a arbitrary: b)
  case (PList xs)
  from PList.prems(3) obtain ys where b: "b = PList ys" by (cases b) simp_all
  have "list_all2 py_eq xs ys"
    by (rule py_lt_list_trichotomy [of xs ys]) (use PList b in simp_all)
  then show ?case by (simp add: b py_eq_list_all2)
next
  case (PDict a) then show ?case by simp
next
  case PNone then show ?case by simp
next
  case (PBool x) then show ?case by (cases b) (auto simp: int_of_bool_def split: if_splits)
next
  case (PInt i) then show ?case by (cases b) (auto simp: int_of_bool_def split: if_splits)
next
  case (PStr s) then show ?case by (cases b) auto
qed

lemma py_lt_list_refl: "list_all wf_val xs \<Longrightarrow> py_lt_list xs xs = Inr False"
  by (induction xs) (simp_all add: py_eq_refl)

lemma py_lt_self_left: "wf_val a \<Longrightarrow> py_lt a b = Inr r \<Longrightarrow> py_lt a a = Inr False"
  by (cases a; cases b) (simp_all add: py_lt_list_refl)

lemma py_lt_self_right: "wf_val b \<Longrightarrow> py_lt a b = Inr r \<Longrightarrow> py_lt b b = Inr False"
  by (cases a; cases b) (simp_all add: py_lt_list_refl)

lemma py_lt_list_negtrans:
  assumes "\<And>x y z p q. x \<in> set xs \<Longrightarrow> wf_val x \<Longrightarrow> wf_val y \<Longrightarrow> wf_val z \<Longrightarrow>
              py_lt x z = Inr True \<Longrightarrow> py_lt x y = Inr p \<Longrightarrow> py_lt y z = Inr q \<Longrightarrow> p \<or> q"
    and "list_all wf_val xs" and "list_all wf_val ys" and "list_all wf_val zs"
    and "py_lt_list xs zs = Inr True" and "py_lt_list xs ys = Inr p" and "py_lt_list ys zs = Inr q"
  shows "p \<or> q"
  using assms
proof (induction xs arbitrary: ys zs)
  case Nil
  from Nil.prems(5) obtain z zt where zs: "zs = z # zt" by (cases zs) simp_all
  from Nil.prems(6,7) show ?case by (cases ys) (simp_all add: zs)
next
  case (Cons x xt)
  from Cons.prems(5) obtain z zt where zs: "zs = z # zt" by (cases zs) simp_all
  show ?case
  proof (cases ys)
    case Nil
    with Cons.prems(7) show ?thesis by (simp add: zs)
  next
    case (Cons y yt)
    have w: "wf_val x" "wf_val y" "wf_val z" "list_all wf_val xt" "list_all wf_val yt" "list_all wf_val zt"
      using Cons.prems(2,3,4) by (simp_all add: zs Cons)
    note el = Cons.prems(1) [OF _ w(1,2,3)]
    have elt: "p' \<or> q'" if "x' \<in> set xt" "wf_val x'" "wf_val y'" "wf_val z'"
        "py_lt x' z' = Inr True" "py_lt x' y' = Inr p'" "py_lt y' z' = Inr q'" for x' y' z' p' q'
    proof -
      from that(1) have "x' \<in> set (x # xt)" by simp
      from Cons.prems(1) [OF this that(2-7)] show ?thesis .
    qed
    have tl: "p \<or> q" if "py_lt_list xt zt = Inr True" "py_lt_list xt yt = Inr p"
        "py_lt_list yt zt = Inr q"
      by (rule Cons.IH [OF elt w(4,5,6) that])
    show ?thesis
    proof (cases "py_eq x z")
      case xz: True
      then have c: "py_lt_list xt zt = Inr True" using Cons.prems(5) by (simp add: zs)
      show ?thesis
      proof (cases "py_eq x y")
        case xy: True
        have yz: "py_eq y z" using xy xz w py_eq_sym py_eq_trans by blast
        from Cons.prems(6,7) xy yz have "py_lt_list xt yt = Inr p" "py_lt_list yt zt = Inr q"
          by (simp_all add: zs Cons)
        with c tl show ?thesis by simp
      next
        case xy: False
        have yz: "\<not> py_eq y z" using xy xz w py_eq_sym py_eq_trans by blast
        have yx: "\<not> py_eq y x" using xy w py_eq_sym by blast
        from Cons.prems(6) xy have p: "py_lt x y = Inr p" by (simp add: Cons)
        from Cons.prems(7) yz have "py_lt y z = Inr q" by (simp add: zs Cons)
        moreover have "py_lt y z = py_lt y x"
          by (rule py_lt_cong_right [OF w(3,1)]) (use xz w py_eq_sym in blast)
        ultimately have q: "py_lt y x = Inr q" by simp
        show ?thesis
        proof (rule ccontr)
          assume "\<not> (p \<or> q)"
          with p q have "py_lt x y = Inr False" "py_lt y x = Inr False" by simp_all
          from py_lt_trichotomy [OF w(1,2) this] xy show False by simp
        qed
      qed
    next
      case xz: False
      then have c: "py_lt x z = Inr True" using Cons.prems(5) by (simp add: zs)
      show ?thesis
      proof (cases "py_eq x y")
        case xy: True
        have yz: "\<not> py_eq y z" using xy xz w py_eq_sym py_eq_trans by blast
        from Cons.prems(7) yz have "py_lt y z = Inr q" by (simp add: zs Cons)
        moreover have "py_lt x z = py_lt y z" by (rule py_lt_cong_left [OF w(1,2) xy])
        ultimately show ?thesis using c by simp
      next
        case xy: False
        from Cons.prems(6) xy have p: "py_lt x y = Inr p" by (simp add: Cons)
        show ?thesis
        proof (cases "py_eq y z")
          case yz: True
          have "py_lt x y = py_lt x z" by (rule py_lt_cong_right [OF w(2,3) yz])
          with p c show ?thesis by simp
        next
          case yz: False
          from Cons.prems(7) yz have q: "py_lt y z = Inr q" by (simp add: zs Cons)
          from el [OF _ c p q] show ?thesis by simp
        qed
      qed
    qed
  qed
qed

lemma py_lt_negtrans:
  "wf_val a \<Longrightarrow> wf_val b \<Longrightarrow> wf_val c \<Longrightarrow>
   py_lt a c = Inr True \<Longrightarrow> py_lt a b = Inr p \<Longrightarrow> py_lt b c = Inr q \<Longrightarrow> p \<or> q"
proof (induction a arbitrary: b c p q)
  case (PList xs)
  from PList.prems(4) obtain zs where c: "c = PList zs" by (cases c) simp_all
  from PList.prems(5) obtain ys where b: "b = PList ys" by (cases b) simp_all
  show ?case
    by (rule py_lt_list_negtrans [of xs ys zs p q]) (use PList b c in simp_all)
next
  case (PDict a) then show ?case by simp
next
  case PNone then show ?case by simp
next
  case (PBool x) then show ?case by (cases b; cases c) (auto simp: int_of_bool_def split: if_splits)
next
  case (PInt i) then show ?case by (cases b; cases c) (auto simp: int_of_bool_def split: if_splits)
next
  case (PStr s) then show ?case by (cases b; cases c) auto
qed

section \<open>Sorting a permutation\<close>

text \<open>
  On mutually orderable elements \<open>sorted\<close> returns a list that is ascending for \<open><\<close>, and two
  ascending lists with the same elements are equal, position by position, for \<open>==\<close>: the
  elements not above a given one are as many in both lists.
\<close>

lemma can_lt_iff: "can_lt x y \<longleftrightarrow> (\<exists>b. py_lt x y = Inr b)"
  by (cases "py_lt x y") (simp_all add: can_lt_def)

lemma py_insort_set:
  assumes "py_insort x ys = Inr zs"
  shows "set zs = insert x (set ys)"
proof -
  from set_py_insort [OF assms] have "set_mset (mset zs) = set_mset (add_mset x (mset ys))"
    by simp
  then show ?thesis by simp
qed

lemma py_insort_sorted:
  assumes "\<forall>a \<in> insert x (set ys). \<forall>b \<in> insert x (set ys). can_lt a b"
    and "\<forall>a \<in> insert x (set ys). wf_val a"
    and "sorted_wrt (\<lambda>a b. py_lt b a = Inr False) ys"
    and "py_insort x ys = Inr zs"
  shows "sorted_wrt (\<lambda>a b. py_lt b a = Inr False) zs"
  using assms
proof (induction ys arbitrary: zs)
  case Nil
  then show ?case by auto
next
  case (Cons y yt)
  have sub: "\<forall>a \<in> insert x (set yt). \<forall>b \<in> insert x (set yt). can_lt a b"
    "\<forall>a \<in> insert x (set yt). wf_val a" "sorted_wrt (\<lambda>a b. py_lt b a = Inr False) yt"
    using Cons.prems(1,2,3) by auto
  have wx: "wf_val x" and wy: "wf_val y" using Cons.prems(2) by auto
  from Cons.prems(1) have "can_lt y x" by simp
  then obtain r where r: "py_lt y x = Inr r" by (auto simp: can_lt_iff)
  show ?case
  proof (cases r)
    case True
    with r Cons.prems(4) obtain zt where zt: "py_insort x yt = Inr zt" and zs: "zs = y # zt"
      by (auto split: sum.splits)
    have s: "sorted_wrt (\<lambda>a b. py_lt b a = Inr False) zt"
      by (rule Cons.IH [OF sub zt])
    have "py_lt x y = Inr False" using py_lt_asym [OF wy wx] r True by simp
    moreover have "\<forall>z \<in> set yt. py_lt z y = Inr False" using Cons.prems(3) by simp
    ultimately have "\<forall>z \<in> set zt. py_lt z y = Inr False"
      using py_insort_set [OF zt] by auto
    with s show ?thesis by (simp add: zs)
  next
    case False
    with r Cons.prems(4) have zs: "zs = x # y # yt" by simp
    have "\<forall>z \<in> set yt. py_lt z x = Inr False"
    proof
      fix z assume z: "z \<in> set yt"
      then have zy: "py_lt z y = Inr False" using Cons.prems(3) by simp
      have wz: "wf_val z" using Cons.prems(2) z by simp
      from Cons.prems(1) z have "can_lt z x" by simp
      then obtain p where p: "py_lt z x = Inr p" by (auto simp: can_lt_iff)
      have "\<not> p"
      proof
        assume p
        with p have "py_lt z x = Inr True" by simp
        from py_lt_negtrans [OF wz wy wx this zy] r False show False by simp
      qed
      with p show "py_lt z x = Inr False" by simp
    qed
    with r False Cons.prems(3) show ?thesis by (simp add: zs)
  qed
qed

lemma py_sorted_set_total:
  "\<forall>a \<in> set xs. \<forall>b \<in> set xs. can_lt a b \<Longrightarrow> \<exists>ys. py_sorted xs = Inr ys"
proof (induction xs)
  case Nil then show ?case by simp
next
  case (Cons x xs)
  then obtain ys where ys: "py_sorted xs = Inr ys" by auto
  then have "set ys = set xs" by (metis mset_py_sorted set_mset_mset)
  with Cons.prems have "\<forall>y \<in> set ys. can_lt y x" by simp
  from py_insort_total [OF this] ys show ?case by simp
qed

lemma py_sorted_sorted:
  assumes "\<forall>a \<in> set xs. \<forall>b \<in> set xs. can_lt a b" and "\<forall>a \<in> set xs. wf_val a"
    and "py_sorted xs = Inr ys"
  shows "sorted_wrt (\<lambda>a b. py_lt b a = Inr False) ys"
  using assms
proof (induction xs arbitrary: ys)
  case Nil then show ?case by simp
next
  case (Cons x xs)
  from Cons.prems(3) obtain yt where yt: "py_sorted xs = Inr yt" and ins: "py_insort x yt = Inr ys"
    by (auto split: sum.splits)
  have s: "sorted_wrt (\<lambda>a b. py_lt b a = Inr False) yt"
    by (rule Cons.IH [OF _ _ yt]) (use Cons.prems in auto)
  have e: "set yt = set xs" using yt by (metis mset_py_sorted set_mset_mset)
  show ?case
    by (rule py_insort_sorted [OF _ _ s ins]) (use Cons.prems e in auto)
qed

lemma filter_prefix_all:
  assumes "i < length ys" and "\<forall>j \<le> i. P (ys ! j)"
  shows "Suc i \<le> length (filter P ys)"
proof -
  have "\<forall>x \<in> set (take (Suc i) ys). P x"
  proof
    fix x assume "x \<in> set (take (Suc i) ys)"
    then obtain j where "j < length (take (Suc i) ys)" "x = take (Suc i) ys ! j"
      by (auto simp: in_set_conv_nth)
    then have "j \<le> i" "x = ys ! j" using assms(1) by simp_all
    with assms(2) show "P x" by simp
  qed
  then have "filter P (take (Suc i) ys) = take (Suc i) ys" by (simp add: filter_id_conv)
  moreover have "filter P ys = filter P (take (Suc i) ys) @ filter P (drop (Suc i) ys)"
    by (simp only: filter_append [symmetric] append_take_drop_id)
  ultimately show ?thesis using assms(1) by simp
qed

lemma filter_suffix_none:
  assumes "\<forall>j. i \<le> j \<and> j < length zs \<longrightarrow> \<not> P (zs ! j)"
  shows "length (filter P zs) \<le> i"
proof -
  have "\<forall>x \<in> set (drop i zs). \<not> P x"
  proof
    fix x assume "x \<in> set (drop i zs)"
    then obtain k where "k < length (drop i zs)" "x = drop i zs ! k"
      by (auto simp: in_set_conv_nth)
    then have "i \<le> i + k" "i + k < length zs" "x = zs ! (i + k)" by simp_all
    with assms show "\<not> P x" by blast
  qed
  then have "filter P (drop i zs) = []" by (simp add: filter_empty_conv)
  moreover have "filter P zs = filter P (take i zs) @ filter P (drop i zs)"
    by (simp only: filter_append [symmetric] append_take_drop_id)
  ultimately have "length (filter P zs) = length (filter P (take i zs))" by simp
  also have "\<dots> \<le> length (take i zs)" by (rule length_filter_le)
  also have "\<dots> \<le> i" by simp
  finally show ?thesis .
qed

lemma sorted_no_lt_at_index:
  assumes sy: "sorted_wrt (\<lambda>a b. py_lt b a = Inr False) ys"
    and sz: "sorted_wrt (\<lambda>a b. py_lt b a = Inr False) zs"
    and ms: "mset ys = mset zs"
    and cmp: "\<forall>a \<in> set ys. \<forall>b \<in> set ys. can_lt a b"
    and wf: "\<forall>a \<in> set ys. wf_val a"
    and i: "i < length ys"
  shows "py_lt (ys ! i) (zs ! i) \<noteq> Inr True"
proof
  assume lt: "py_lt (ys ! i) (zs ! i) = Inr True"
  have len: "length zs = length ys" using ms by (metis mset_eq_length)
  have sets: "set zs = set ys" using ms by (metis set_mset_mset)
  let ?z = "ys ! i"
  let ?P = "\<lambda>w. py_lt ?z w = Inr False"
  have zin: "?z \<in> set ys" using i by simp
  have wz: "wf_val ?z" using wf zin by blast
  have "can_lt ?z ?z" using cmp zin by blast
  then have self: "py_lt ?z ?z = Inr False"
    using py_lt_self_left [OF wz] by (auto simp: can_lt_iff)
  have a: "\<forall>j \<le> i. ?P (ys ! j)"
  proof (intro allI impI)
    fix j assume j: "j \<le> i"
    show "?P (ys ! j)"
    proof (cases "j = i")
      case True with self show ?thesis by simp
    next
      case False
      with j have "j < i" by simp
      from sorted_wrt_nth_less [OF sy this i] show ?thesis .
    qed
  qed
  have b: "\<forall>j. i \<le> j \<and> j < length zs \<longrightarrow> \<not> ?P (zs ! j)"
  proof (intro allI impI)
    fix j assume j: "i \<le> j \<and> j < length zs"
    show "\<not> ?P (zs ! j)"
    proof (cases "j = i")
      case True with lt show ?thesis by simp
    next
      case False
      with j have ij: "i < j" and jl: "j < length zs" by simp_all
      from sorted_wrt_nth_less [OF sz ij jl] have q: "py_lt (zs ! j) (zs ! i) = Inr False" .
      have zj: "zs ! j \<in> set ys" and zi: "zs ! i \<in> set ys"
        using sets nth_mem [OF jl] nth_mem [of i zs] ij jl by simp_all
      have "can_lt ?z (zs ! j)" using cmp zin zj by blast
      then obtain p where p: "py_lt ?z (zs ! j) = Inr p" by (auto simp: can_lt_iff)
      from py_lt_negtrans [OF wz _ _ lt p q] wf zj zi have p by auto
      with p show ?thesis by simp
    qed
  qed
  have "mset (filter ?P ys) = mset (filter ?P zs)" by (simp add: ms)
  then have "length (filter ?P ys) = length (filter ?P zs)" by (rule mset_eq_length)
  moreover have "Suc i \<le> length (filter ?P ys)" by (rule filter_prefix_all [OF i a])
  moreover have "length (filter ?P zs) \<le> i" by (rule filter_suffix_none [OF b])
  ultimately show False by simp
qed

lemma sorted_unique_up_to_py_eq:
  assumes sy: "sorted_wrt (\<lambda>a b. py_lt b a = Inr False) ys"
    and sz: "sorted_wrt (\<lambda>a b. py_lt b a = Inr False) zs"
    and ms: "mset ys = mset zs"
    and cmp: "\<forall>a \<in> set ys. \<forall>b \<in> set ys. can_lt a b"
    and wf: "\<forall>a \<in> set ys. wf_val a"
  shows "list_all2 py_eq ys zs"
  unfolding list_all2_conv_all_nth
proof (intro conjI allI impI)
  show len: "length ys = length zs" using ms by (rule mset_eq_length)
  have sets: "set zs = set ys" using ms by (metis set_mset_mset)
  fix i assume i: "i < length ys"
  have yi: "ys ! i \<in> set ys" and zi: "zs ! i \<in> set ys"
    using i len sets nth_mem [of i zs] by simp_all
  have "can_lt (ys ! i) (zs ! i)" "can_lt (zs ! i) (ys ! i)" using cmp yi zi by blast+
  then obtain p q where p: "py_lt (ys ! i) (zs ! i) = Inr p" and q: "py_lt (zs ! i) (ys ! i) = Inr q"
    by (auto simp: can_lt_iff)
  have "\<not> p" using sorted_no_lt_at_index [OF sy sz ms cmp wf i] p by auto
  moreover have "\<not> q"
  proof -
    have c: "\<forall>a \<in> set zs. \<forall>b \<in> set zs. can_lt a b" and w: "\<forall>a \<in> set zs. wf_val a"
      using cmp wf sets by simp_all
    have iz: "i < length zs" using i len by simp
    from sorted_no_lt_at_index [OF sz sy ms [symmetric] c w iz] q show ?thesis by auto
  qed
  ultimately have "py_lt (ys ! i) (zs ! i) = Inr False" "py_lt (zs ! i) (ys ! i) = Inr False"
    using p q by simp_all
  from py_lt_trichotomy [OF _ _ this] wf yi zi show "py_eq (ys ! i) (zs ! i)" by blast
qed

lemma orderable_distinct:
  "orderable xs \<Longrightarrow> a \<in> set xs \<Longrightarrow> b \<in> set xs \<Longrightarrow> a \<noteq> b \<Longrightarrow> can_lt a b"
  by (induction xs) (auto simp: list_all_iff)

lemma orderable_self:
  assumes "orderable xs" "list_all wf_val xs" "2 \<le> length xs" "a \<in> set xs"
  shows "can_lt a a"
proof -
  from assms(3) obtain x y yt where xs: "xs = x # y # yt"
    by (cases xs; cases "tl xs") auto
  have o: "\<forall>z \<in> set (y # yt). can_lt x z \<and> can_lt z x"
    using assms(1) by (simp add: xs list_all_iff)
  have wa: "wf_val a" using assms(2,4) by (simp add: list_all_iff)
  show ?thesis
  proof (cases "a = x")
    case True
    from o have "can_lt x y" by simp
    then obtain r where "py_lt a y = Inr r" using True by (auto simp: can_lt_iff)
    from py_lt_self_left [OF wa this] show ?thesis by (simp add: can_lt_def)
  next
    case False
    with assms(4) have "a \<in> set (y # yt)" by (simp add: xs)
    with o have "can_lt a x" by blast
    then obtain r where "py_lt a x = Inr r" by (auto simp: can_lt_iff)
    from py_lt_self_left [OF wa this] show ?thesis by (simp add: can_lt_def)
  qed
qed

lemma orderable_comparable:
  assumes "orderable xs" "list_all wf_val xs" "2 \<le> length xs"
  shows "\<forall>a \<in> set xs. \<forall>b \<in> set xs. can_lt a b"
proof (intro ballI)
  fix a b assume a: "a \<in> set xs" and b: "b \<in> set xs"
  show "can_lt a b"
  proof (cases "a = b")
    case True
    with orderable_self [OF assms a] show ?thesis by simp
  next
    case False
    from orderable_distinct [OF assms(1) a b False] show ?thesis .
  qed
qed

lemma mset_short_eq:
  assumes "mset l1 = mset l2" "\<not> 2 \<le> length l1"
  shows "l2 = l1"
proof -
  have len: "length l2 = length l1" using assms(1) by (metis mset_eq_length)
  show ?thesis
  proof (cases l1)
    case Nil
    with len show ?thesis by simp
  next
    case (Cons x xt)
    with assms(2) have l1: "l1 = [x]" by (cases xt) simp_all
    with len obtain y where l2: "l2 = [y]" by (cases l2) simp_all
    from assms(1) show ?thesis by (simp add: l1 l2)
  qed
qed

lemma py_sorted_short: "\<not> 2 \<le> length l \<Longrightarrow> py_sorted l = Inr l"
  by (cases l; cases "tl l") auto

lemma sorted_perm_py_eq:
  assumes "orderable l1" "list_all wf_val l1" "mset l1 = mset l2"
  shows "\<exists>s1 s2. py_sorted l1 = Inr s1 \<and> py_sorted l2 = Inr s2 \<and> py_eq (PList s1) (PList s2)"
proof (cases "2 \<le> length l1")
  case False
  from mset_short_eq [OF assms(3) False] have l2: "l2 = l1" .
  have "py_eq (PList l1) (PList l1)" by (rule py_eq_refl) (simp add: assms(2))
  with py_sorted_short [OF False] l2 show ?thesis by simp
next
  case True
  have sets: "set l2 = set l1" using assms(3) by (metis set_mset_mset)
  have c1: "\<forall>a \<in> set l1. \<forall>b \<in> set l1. can_lt a b"
    by (rule orderable_comparable [OF assms(1,2) True])
  have w1: "\<forall>a \<in> set l1. wf_val a" using assms(2) by (simp add: list_all_iff)
  have c2: "\<forall>a \<in> set l2. \<forall>b \<in> set l2. can_lt a b" and w2: "\<forall>a \<in> set l2. wf_val a"
    using c1 w1 sets by simp_all
  from py_sorted_set_total [OF c1] obtain s1 where s1: "py_sorted l1 = Inr s1" ..
  from py_sorted_set_total [OF c2] obtain s2 where s2: "py_sorted l2 = Inr s2" ..
  have m1: "mset s1 = mset l1" by (rule mset_py_sorted [OF s1])
  have m2: "mset s2 = mset l2" by (rule mset_py_sorted [OF s2])
  have ms: "mset s1 = mset s2" using m1 m2 assms(3) by simp
  have ss: "set s1 = set l1" using m1 by (metis set_mset_mset)
  have "list_all2 py_eq s1 s2"
  proof (rule sorted_unique_up_to_py_eq [OF _ _ ms])
    show "sorted_wrt (\<lambda>a b. py_lt b a = Inr False) s1" by (rule py_sorted_sorted [OF c1 w1 s1])
    show "sorted_wrt (\<lambda>a b. py_lt b a = Inr False) s2" by (rule py_sorted_sorted [OF c2 w2 s2])
    show "\<forall>a \<in> set s1. \<forall>b \<in> set s1. can_lt a b" using c1 ss by simp
    show "\<forall>a \<in> set s1. wf_val a" using w1 ss by simp
  qed
  then have "py_eq (PList s1) (PList s2)" by (simp add: py_eq_list_all2)
  with s1 s2 show ?thesis by blast
qed

text \<open>
  On a list of dictionaries the identifiers the code extracts are the identifiers in the
  specification's words.
\<close>

lemma sg_ids_identifiers:
  "list_all (\<lambda>sg. kind_of sg = KMapping) l \<Longrightarrow> sg_ids l = Inr (identifiers l)"
proof (induction l)
  case Nil
  then show ?case by (simp add: identifiers_def)
next
  case (Cons sg l)
  from Cons.prems obtain m where sg: "sg = PDict m" by (cases sg) simp_all
  from Cons have "sg_ids l = Inr (identifiers l)" by simp
  then show ?case by (simp add: sg identifiers_def sg_identifier_def)
qed


lemma wf_dict_get: "wf_val (PDict m) \<Longrightarrow> wf_val (dict_get m k)"
  by (auto simp: dict_get_def list_all_iff split: option.splits dest!: map_of_SomeD)

lemma wf_identifiers: "list_all wf_val l \<Longrightarrow> list_all wf_val (identifiers l)"
proof -
  assume w: "list_all wf_val l"
  have "wf_val (sg_identifier sg)" if "wf_val sg" for sg
  proof (cases sg)
    case (PDict m)
    with that have "wf_val (PDict m)" by simp
    from wf_dict_get [OF this] show ?thesis by (simp add: PDict sg_identifier_def)
  qed (simp_all add: sg_identifier_def)
  with w show ?thesis by (auto simp: identifiers_def list_all_iff)
qed


lemma sorted_sg_ids_identifiers:
  "list_all (\<lambda>sg. kind_of sg = KMapping) l \<Longrightarrow> sorted_sg_ids l = py_sorted (identifiers l)"
  by (simp add: sorted_sg_ids_def sg_ids_identifiers)


section \<open>Order-insensitive list comparison\<close>



section \<open>The security-group list\<close>

text \<open>
  C8, as amended: for the security-group list, when the elements on both sides are
  dictionaries (well-formed, with mutually orderable identifiers), the comparison depends
  only on the \<open>VpcSecurityGroupId\<close> values with their multiplicities, after dropping the
  elements without an identifier: the entry records the two sorted identifier lists and
  \<open>diff\<close> is the negation of their equality; two records whose lists have the same
  identifiers, each the same number of times, in any order and with any other attributes,
  have \<open>diff = False\<close>.
\<close>

theorem security_groups_compare_identifiers:
  assumes "''VpcSecurityGroups'' \<in> set fs"
    and "compare_rds_fields (Some d1) (Some d2) fs = Inr r"
    and "dict_get d1 ''VpcSecurityGroups'' = PList l1"
    and "dict_get d2 ''VpcSecurityGroups'' = PList l2"
    and "list_all (\<lambda>sg. kind_of sg = KMapping) l1"
    and "list_all (\<lambda>sg. kind_of sg = KMapping) l2"
    and "orderable (identifiers l1)" and "orderable (identifiers l2)"
    and "wf_val (PList l1)"
  shows "\<exists>s1 s2. py_sorted (identifiers l1) = Inr s1 \<and> py_sorted (identifiers l2) = Inr s2 \<and>
           compare_field d1 d2 ''VpcSecurityGroups'' =
             Inr \<lparr>db1 = PList s1, db2 = PList s2, diff = (\<not> py_eq (PList s1) (PList s2))\<rparr> \<and>
           map_of (differences r) ''VpcSecurityGroups'' =
             Some \<lparr>db1 = PList s1, db2 = PList s2, diff = (\<not> py_eq (PList s1) (PList s2))\<rparr> \<and>
           (mset (identifiers l1) = mset (identifiers l2) \<longrightarrow>
              map_of (differences r) ''VpcSecurityGroups'' =
                Some \<lparr>db1 = PList s1, db2 = PList s2, diff = False\<rparr>)"
proof -
  have ne: "d1 \<noteq> []" "d2 \<noteq> []" using assms(3,4) by (auto simp: dict_get_def)
  have w: "list_all wf_val (identifiers l1)" using assms(9) by (simp add: wf_identifiers)
  from py_sorted_total [OF assms(7)] obtain s1 where s1: "py_sorted (identifiers l1) = Inr s1" ..
  from py_sorted_total [OF assms(8)] obtain s2 where s2: "py_sorted (identifiers l2) = Inr s2" ..
  have cf: "compare_field d1 d2 ''VpcSecurityGroups'' =
      Inr \<lparr>db1 = PList s1, db2 = PList s2, diff = (\<not> py_eq (PList s1) (PList s2))\<rparr>"
    unfolding compare_field_def assms(3,4)
    using s1 s2
    by (simp add: sorted_sg_ids_identifiers [OF assms(5)] sorted_sg_ids_identifiers [OF assms(6)])
  note m = report_entry [OF ne assms(2,1) cf]
  have e: "py_eq (PList s1) (PList s2)" if "mset (identifiers l1) = mset (identifiers l2)"
  proof -
    from sorted_perm_py_eq [OF assms(7) w that] s1 s2 show ?thesis by auto
  qed
  have "mset (identifiers l1) = mset (identifiers l2) \<longrightarrow>
      map_of (differences r) ''VpcSecurityGroups'' =
        Some \<lparr>db1 = PList s1, db2 = PList s2, diff = False\<rparr>"
    using m e by simp
  with s1 s2 cf m show ?thesis by blast
qed

theorem security_groups_compare_identifiers_witness:
  "compare_rds_fields
     (Some [(''VpcSecurityGroups'',
        PList [PDict [(''VpcSecurityGroupId'', PStr ''sg-2''), (''Status'', PStr ''active'')],
               PDict [(''VpcSecurityGroupId'', PStr ''sg-1''), (''Status'', PStr ''active'')]])])
     (Some [(''VpcSecurityGroups'',
        PList [PDict [(''Status'', PStr ''adding''), (''VpcSecurityGroupId'', PStr ''sg-1'')],
               PDict [(''VpcSecurityGroupId'', PStr ''sg-2'')]])])
     [''VpcSecurityGroups''] =
     Inr \<lparr>status = ''SUCCESS'', message = ''No differences found for specified fields.'',
          differences =
            [(''VpcSecurityGroups'',
              \<lparr>db1 = PList [PStr ''sg-1'', PStr ''sg-2''],
                 db2 = PList [PStr ''sg-1'', PStr ''sg-2''], diff = False\<rparr>)]\<rparr> \<and>
   (\<exists>s1 s2.
      py_sorted (identifiers
        [PDict [(''VpcSecurityGroupId'', PStr ''sg-2''), (''Status'', PStr ''active'')],
         PDict [(''VpcSecurityGroupId'', PStr ''sg-1''), (''Status'', PStr ''active'')]]) = Inr s1 \<and>
      py_sorted (identifiers
        [PDict [(''Status'', PStr ''adding''), (''VpcSecurityGroupId'', PStr ''sg-1'')],
         PDict [(''VpcSecurityGroupId'', PStr ''sg-2'')]]) = Inr s2 \<and>
      py_eq (PList s1) (PList s2))"
proof -
  let ?l1 = "[PDict [(''VpcSecurityGroupId'', PStr ''sg-2''), (''Status'', PStr ''active'')],
              PDict [(''VpcSecurityGroupId'', PStr ''sg-1''), (''Status'', PStr ''active'')]]"
  let ?l2 = "[PDict [(''Status'', PStr ''adding''), (''VpcSecurityGroupId'', PStr ''sg-1'')],
              PDict [(''VpcSecurityGroupId'', PStr ''sg-2'')]]"
  let ?A = "[(''VpcSecurityGroups'', PList ?l1)]"
  let ?B = "[(''VpcSecurityGroups'', PList ?l2)]"
  let ?R = "\<lparr>status = ''SUCCESS'', message = ''No differences found for specified fields.'',
          differences =
            [(''VpcSecurityGroups'',
              \<lparr>db1 = PList [PStr ''sg-1'', PStr ''sg-2''],
                 db2 = PList [PStr ''sg-1'', PStr ''sg-2''], diff = False\<rparr>)]\<rparr>"
  have h: "compare_rds_fields (Some ?A) (Some ?B) [''VpcSecurityGroups''] = Inr ?R"
    by (simp add: compare_rds_fields_def compare_field_def dict_get_def sorted_sg_ids_def
        less_char_def)
  have mem: "''VpcSecurityGroups'' \<in> set [''VpcSecurityGroups'']" by simp
  have g1: "dict_get ?A ''VpcSecurityGroups'' = PList ?l1"
    and g2: "dict_get ?B ''VpcSecurityGroups'' = PList ?l2"
    by (simp_all add: dict_get_def)
  have k1: "list_all (\<lambda>sg. kind_of sg = KMapping) ?l1"
    and k2: "list_all (\<lambda>sg. kind_of sg = KMapping) ?l2" by simp_all
  have i1: "identifiers ?l1 = [PStr ''sg-2'', PStr ''sg-1'']"
    and i2: "identifiers ?l2 = [PStr ''sg-1'', PStr ''sg-2'']"
    by (simp_all add: identifiers_def sg_identifier_def dict_get_def)
  have ms: "mset (identifiers ?l1) = mset (identifiers ?l2)" unfolding i1 i2 by simp
  have o1: "orderable (identifiers ?l1)" unfolding i1 by (simp add: can_lt_def)
  have o2: "orderable (identifiers ?l2)" unfolding i2 by (simp add: can_lt_def)
  have w: "wf_val (PList ?l1)" by simp
  from security_groups_compare_identifiers [OF mem h g1 g2 k1 k2 o1 o2 w] ms
  obtain s1 s2 where s: "py_sorted (identifiers ?l1) = Inr s1" "py_sorted (identifiers ?l2) = Inr s2"
    and a: "map_of (differences ?R) ''VpcSecurityGroups'' =
        Some \<lparr>db1 = PList s1, db2 = PList s2, diff = (\<not> py_eq (PList s1) (PList s2))\<rparr>"
    and b: "map_of (differences ?R) ''VpcSecurityGroups'' =
        Some \<lparr>db1 = PList s1, db2 = PList s2, diff = False\<rparr>"
    by blast
  from a b have "py_eq (PList s1) (PList s2)" by simp
  with s h show ?thesis by blast
qed

text \<open>
  C8, as stated, makes the comparison depend on the set of identifiers only. A list with the
  identifier \<open>sg-1\<close> twice and a list with it once have the same set of identifiers, but the
  sorted identifier lists differ in length and \<open>diff\<close> is true.
\<close>

theorem duplicate_identifier_differs:
  "set (identifiers [PDict [(''VpcSecurityGroupId'', PStr ''sg-1''), (''Status'', PStr ''active'')],
                     PDict [(''VpcSecurityGroupId'', PStr ''sg-1''), (''Status'', PStr ''adding'')]]) =
   set (identifiers [PDict [(''VpcSecurityGroupId'', PStr ''sg-1''), (''Status'', PStr ''active'')]]) \<and>
   compare_rds_fields
     (Some [(''VpcSecurityGroups'',
        PList [PDict [(''VpcSecurityGroupId'', PStr ''sg-1''), (''Status'', PStr ''active'')],
               PDict [(''VpcSecurityGroupId'', PStr ''sg-1''), (''Status'', PStr ''adding'')]])])
     (Some [(''VpcSecurityGroups'',
        PList [PDict [(''VpcSecurityGroupId'', PStr ''sg-1''), (''Status'', PStr ''active'')]])])
     [''VpcSecurityGroups''] =
     Inr \<lparr>status = ''DIFFERENCES_FOUND'',
          message = ''Differences found for one or more specified fields.'',
          differences =
            [(''VpcSecurityGroups'',
              \<lparr>db1 = PList [PStr ''sg-1'', PStr ''sg-1''], db2 = PList [PStr ''sg-1''],
                 diff = True\<rparr>)]\<rparr>"
  by (simp add: compare_rds_fields_def compare_field_def dict_get_def sorted_sg_ids_def
      identifiers_def sg_identifier_def less_char_def)

end
